theory Spec2Isabelle
  imports Main
begin

section \<open>Data model of \<open>feuermurmel/events.py\<close>\<close>

text \<open>
  Tasks are Python objects that are shared by reference and mutated in place, so they live
  in an explicit store: a task is named by its address (\<open>tid\<close>) and \<open>tasks s t\<close> is the
  object at address \<open>t\<close>. Callables that client code attaches to events or runs inside
  methods are defunctionalised: a bound event, a bound transaction method, or a client
  function whose code is a list of commands against the library.
\<close>

type_synonym tid = nat

text \<open>An event of a task: the two events the library declares, or one a subclass declares.\<close>

datatype ename = OnFailure | OnSuccess | UserEvent nat

text \<open>
  Exceptions. \<open>EventHandlerException\<close> (carrying its \<open>__cause__\<close>) and
  \<open>NoFailureHandlerException\<close> derive from \<open>BaseException\<close>, as does \<open>ClientBaseException\<close>
  (for instance \<open>KeyboardInterrupt\<close>); the others derive from \<open>Exception\<close>.
\<close>

datatype exn =
    EventHandlerException exn
  | NoFailureHandlerException
  | PyException string
  | ValueError
  | AssertionError
  | ClientException nat
  | ClientBaseException nat

text \<open>Python values passed as the argument of an event.\<close>

datatype pyval = PNone | PInt int | PStr string | PExc exn

fun is_Exception :: "exn \<Rightarrow> bool" where
  "is_Exception (EventHandlerException c) = False"
| "is_Exception NoFailureHandlerException = False"
| "is_Exception (PyException m) = True"
| "is_Exception ValueError = True"
| "is_Exception AssertionError = True"
| "is_Exception (ClientException k) = True"
| "is_Exception (ClientBaseException k) = False"

text \<open>
  Callables and client code. \<open>Fn l cs\<close> is a client function with identity \<open>l\<close> whose
  body performs the commands \<open>cs\<close>; \<open>Log\<close> appends to a client-side list, which is how
  client code observes the order of calls.
\<close>

datatype handler =
    BoundEvent tid ename
  | BoundTransaction tid nat
  | Fn nat "cmd list"
and cmd =
    Call handler pyval
  | Subscribe tid ename handler
  | Unsubscribe tid ename handler
  | Stop tid
  | StopTask "tid option"
  | Adopt tid tid "handler option"
  | RaiseC exn
  | Log nat

text \<open>The closure \<open>do_call\<close> of \<open>_Event.Bound.__call__\<close>: it captures the bound event and the arguments.\<close>

datatype thunk = DoCall tid ename pyval

text \<open>
  One record for an instance of \<open>BasicTask\<close>, \<open>Task\<close> or \<open>Future\<close> (the fields of the most
  derived class). Fields carry the prefix \<open>p_\<close> where Python has a leading underscore.
  \<open>subscribers\<close> is the \<open>_subscribers\<close> list of each bound event, \<open>event_method\<close> and
  \<open>transaction_method\<close> are the \<open>_method\<close> of the bound events and transactions a subclass
  declares.
\<close>

record task =
  p_running :: bool
  p_event_signal_queue :: "thunk list option"
  subscribers :: "ename \<Rightarrow> handler list"
  event_method :: "nat \<Rightarrow> cmd list"
  transaction_method :: "nat \<Rightarrow> cmd list"
  p_exception :: pyval
  p_adopted_tasks :: "tid list"
  p_result :: pyval
  p_succeeded :: bool

record state =
  tasks :: "tid \<Rightarrow> task"
  next_id :: tid
  trace :: "nat list"

text \<open>How a call ends: it returns, it raises, or the model's bound on the call depth is hit.\<close>

datatype outcome = Ok | Raise exn | OutOfFuel

definition upd :: "tid \<Rightarrow> (task \<Rightarrow> task) \<Rightarrow> state \<Rightarrow> state" where
  "upd t f s = s\<lparr>tasks := (tasks s)(t := f (tasks s t))\<rparr>"

section \<open>Subscribing and unsubscribing\<close>

text \<open>\<open>_Event.Bound.__iadd__\<close>; every \<open>handler\<close> is callable, so the assertion holds.\<close>

definition iadd :: "tid \<Rightarrow> ename \<Rightarrow> handler \<Rightarrow> state \<Rightarrow> state" where
  "iadd t ev h s =
     upd t (\<lambda>x. x\<lparr>subscribers := (subscribers x)(ev := subscribers x ev @ [h])\<rparr>) s"

text \<open>\<open>_Event.Bound.__isub__\<close>; \<open>list.remove\<close> raises \<open>ValueError\<close> when the handler is absent.\<close>

definition isub :: "tid \<Rightarrow> ename \<Rightarrow> handler \<Rightarrow> state \<Rightarrow> outcome \<times> state" where
  "isub t ev h s =
     (if h \<in> set (subscribers (tasks s t) ev)
      then (Ok, upd t (\<lambda>x. x\<lparr>subscribers := (subscribers x)(ev := remove1 h (subscribers x ev))\<rparr>) s)
      else (Raise ValueError, s))"

section \<open>Task lifecycle\<close>

text \<open>The properties \<open>running\<close>, \<open>failed\<close>, \<open>exception\<close>, \<open>succeeded\<close> and \<open>result\<close>.\<close>

definition running :: "task \<Rightarrow> bool" where
  "running x = p_running x"

definition failed :: "task \<Rightarrow> exn + bool" where
  "failed x = (if p_running x then Inl AssertionError else Inr (p_exception x \<noteq> PNone))"

definition exception :: "task \<Rightarrow> exn + pyval" where
  "exception x = (if p_exception x = PNone then Inl AssertionError else Inr (p_exception x))"

definition succeeded :: "task \<Rightarrow> exn + bool" where
  "succeeded x = (if p_running x then Inl AssertionError else Inr (p_succeeded x))"

definition result :: "task \<Rightarrow> exn + pyval" where
  "result x = (if p_succeeded x then Inr (p_result x) else Inl AssertionError)"

text \<open>
  \<open>Task.stop\<close> and \<open>stop_task\<close>. \<open>_cleanup\<close> is the no-op of \<open>Task\<close>. The adoption graph may
  be cyclic, so the recursion is bounded by the call depth.
\<close>

fun stop :: "nat \<Rightarrow> tid \<Rightarrow> state \<Rightarrow> outcome \<times> state"
  and stop_adopted :: "nat \<Rightarrow> tid list \<Rightarrow> state \<Rightarrow> outcome \<times> state"
  and stop_task :: "nat \<Rightarrow> tid option \<Rightarrow> state \<Rightarrow> outcome \<times> state"
where
  "stop 0 t s = (OutOfFuel, s)"
| "stop (Suc n) t s =
     (if \<not> p_running (tasks s t)
      then (Raise (PyException ''stop() called on non-running task.''), s)
      else stop_adopted n (p_adopted_tasks (tasks s t)) (upd t (\<lambda>x. x\<lparr>p_running := False\<rparr>) s))"
| "stop_adopted n [] s = (Ok, s)"
| "stop_adopted n (i # rest) s =
     (case stop_task n (Some i) s of
        (Ok, s1) \<Rightarrow> stop_adopted n rest s1
      | (r, s1) \<Rightarrow> (r, s1))"
| "stop_task n None s = (Ok, s)"
| "stop_task n (Some t) s = (if running (tasks s t) then stop n t s else (Ok, s))"

text \<open>\<open>Task._adopt_task\<close>.\<close>

definition adopt_task :: "tid \<Rightarrow> tid \<Rightarrow> handler option \<Rightarrow> state \<Rightarrow> state" where
  "adopt_task self task failure_handler s =
     (let h = (case failure_handler of None \<Rightarrow> BoundEvent self OnFailure | Some f \<Rightarrow> f);
          s1 = upd self (\<lambda>x. x\<lparr>p_adopted_tasks := p_adopted_tasks x @ [task]\<rparr>) s
      in iadd task OnFailure h s1)"

text \<open>The bodies of the events \<open>Task.on_failure\<close> and \<open>Future.on_success\<close>.\<close>

definition on_failure :: "nat \<Rightarrow> tid \<Rightarrow> pyval \<Rightarrow> state \<Rightarrow> outcome \<times> state" where
  "on_failure n self e s =
     (if subscribers (tasks s self) OnFailure = []
      then (Raise NoFailureHandlerException, s)
      else stop n self (upd self (\<lambda>x. x\<lparr>p_exception := e\<rparr>) s))"

definition on_success :: "nat \<Rightarrow> tid \<Rightarrow> pyval \<Rightarrow> state \<Rightarrow> outcome \<times> state" where
  "on_success n self v s =
     stop n self (upd self (\<lambda>x. x\<lparr>p_result := v, p_succeeded := True\<rparr>) s)"

section \<open>Events and transactions\<close>

text \<open>
  \<open>BasicTask._transaction_context\<close> is a generator-based context manager. Its part before
  the \<open>yield\<close> is \<open>transaction_enter\<close>, which says whether this context is the outermost
  one; the part after it is \<open>transaction_exit\<close> below.
\<close>

definition transaction_enter :: "tid \<Rightarrow> state \<Rightarrow> bool \<times> state" where
  "transaction_enter t s =
     (case p_event_signal_queue (tasks s t) of
        None \<Rightarrow> (True, upd t (\<lambda>x. x\<lparr>p_event_signal_queue := Some []\<rparr>) s)
      | Some q \<Rightarrow> (False, s))"

text \<open>\<open>queue.append(fn)\<close> on the list the context yields, which is the task's current queue.\<close>

definition queue_append :: "tid \<Rightarrow> thunk \<Rightarrow> state \<Rightarrow> state" where
  "queue_append t fn s =
     upd t (\<lambda>x. x\<lparr>p_event_signal_queue := map_option (\<lambda>q. q @ [fn]) (p_event_signal_queue x)\<rparr>) s"

text \<open>
  The remaining functions invoke callables. They take the invoker \<open>c\<close> of callables as a
  parameter; \<open>call\<close> at the end closes the recursion, \<open>c\<close> being \<open>call\<close> at a call depth
  one less. The bound \<open>n\<close> is that call depth, used by \<open>stop\<close>.
\<close>

type_synonym invoke = "handler \<Rightarrow> pyval \<Rightarrow> state \<Rightarrow> outcome \<times> state"

text \<open>Client code: one command, and a sequence of commands that ends at the first error.\<close>

fun exec_cmd :: "nat \<Rightarrow> invoke \<Rightarrow> cmd \<Rightarrow> state \<Rightarrow> outcome \<times> state" where
  "exec_cmd n c (Call h a) s = c h a s"
| "exec_cmd n c (Subscribe t ev h) s = (Ok, iadd t ev h s)"
| "exec_cmd n c (Unsubscribe t ev h) s = isub t ev h s"
| "exec_cmd n c (Stop t) s = stop n t s"
| "exec_cmd n c (StopTask ot) s = stop_task n ot s"
| "exec_cmd n c (Adopt p ch fh) s = (Ok, adopt_task p ch fh s)"
| "exec_cmd n c (RaiseC e) s = (Raise e, s)"
| "exec_cmd n c (Log l) s = (Ok, s\<lparr>trace := trace s @ [l]\<rparr>)"

fun exec :: "nat \<Rightarrow> invoke \<Rightarrow> cmd list \<Rightarrow> state \<Rightarrow> outcome \<times> state" where
  "exec n c [] s = (Ok, s)"
| "exec n c (x # xs) s =
     (case exec_cmd n c x s of
        (Ok, s1) \<Rightarrow> exec n c xs s1
      | (r, s1) \<Rightarrow> (r, s1))"

text \<open>
  The loop of \<open>do_call\<close> over a copy of the subscriber list: an \<open>Exception\<close> of a handler is
  wrapped, anything else that a handler raises passes through \<open>except Exception\<close>.
\<close>

fun notify :: "invoke \<Rightarrow> handler list \<Rightarrow> pyval \<Rightarrow> state \<Rightarrow> outcome \<times> state" where
  "notify c [] a s = (Ok, s)"
| "notify c (i # rest) a s =
     (case c i a s of
        (Ok, s1) \<Rightarrow> notify c rest a s1
      | (Raise e, s1) \<Rightarrow>
          (if is_Exception e then (Raise (EventHandlerException e), s1) else (Raise e, s1))
      | (OutOfFuel, s1) \<Rightarrow> (OutOfFuel, s1))"

text \<open>The closure \<open>do_call\<close>: \<open>list(self._subscribers)\<close> is read when the closure runs.\<close>

fun do_call :: "invoke \<Rightarrow> thunk \<Rightarrow> state \<Rightarrow> outcome \<times> state" where
  "do_call c (DoCall t ev a) s = notify c (subscribers (tasks s t) ev) a s"

text \<open>The loop \<open>for i in queue: i()\<close>.\<close>

fun run_queue :: "invoke \<Rightarrow> thunk list \<Rightarrow> state \<Rightarrow> outcome \<times> state" where
  "run_queue c [] s = (Ok, s)"
| "run_queue c (i # q) s =
     (case do_call c i s of
        (Ok, s1) \<Rightarrow> run_queue c q s1
      | (r, s1) \<Rightarrow> (r, s1))"

text \<open>
  The part of \<open>_transaction_context\<close> after the \<open>yield\<close>; \<open>r\<close> is how the body of the
  \<open>with\<close> statement ended. The local \<open>queue\<close> is the list object that the field held
  throughout the outermost context, so its contents are read from the field.
\<close>

definition transaction_exit :: "invoke \<Rightarrow> tid \<Rightarrow> bool \<Rightarrow> outcome \<Rightarrow> state \<Rightarrow> outcome \<times> state" where
  "transaction_exit c t outermost r s =
     (if outermost
      then (let queue = (case p_event_signal_queue (tasks s t) of None \<Rightarrow> [] | Some q \<Rightarrow> q);
                s1 = upd t (\<lambda>x. x\<lparr>p_event_signal_queue := None\<rparr>) s
            in if r = Ok then run_queue c queue s1 else (r, s1))
      else (r, s))"

text \<open>\<open>BasicTask._run_within_transaction\<close>.\<close>

definition run_within_transaction :: "invoke \<Rightarrow> tid \<Rightarrow> thunk \<Rightarrow> state \<Rightarrow> outcome \<times> state" where
  "run_within_transaction c t fn s =
     (case transaction_enter t s of
        (outermost, s1) \<Rightarrow> transaction_exit c t outermost Ok (queue_append t fn s1))"

text \<open>\<open>_Transaction.Bound.__call__\<close>.\<close>

definition Transaction_call :: "nat \<Rightarrow> invoke \<Rightarrow> tid \<Rightarrow> nat \<Rightarrow> state \<Rightarrow> outcome \<times> state" where
  "Transaction_call n c t m s =
     (case transaction_enter t s of
        (outermost, s1) \<Rightarrow>
          (case exec n c (transaction_method (tasks s1 t) m) s1 of
             (r, s2) \<Rightarrow> transaction_exit c t outermost r s2))"

text \<open>\<open>_Bindable.Bound._call_method\<close> of a bound event: the event's declared body.\<close>

fun call_method :: "nat \<Rightarrow> invoke \<Rightarrow> tid \<Rightarrow> ename \<Rightarrow> pyval \<Rightarrow> state \<Rightarrow> outcome \<times> state" where
  "call_method n c t OnFailure a s = on_failure n t a s"
| "call_method n c t OnSuccess a s = on_success n t a s"
| "call_method n c t (UserEvent k) a s = exec n c (event_method (tasks s t) k) s"

text \<open>\<open>_Event.Bound.__call__\<close>.\<close>

definition Event_call :: "nat \<Rightarrow> invoke \<Rightarrow> tid \<Rightarrow> ename \<Rightarrow> pyval \<Rightarrow> state \<Rightarrow> outcome \<times> state" where
  "Event_call n c t ev a s =
     (if p_running (tasks s t)
      then (case call_method n c t ev a s of
              (Ok, s1) \<Rightarrow> run_within_transaction c t (DoCall t ev a) s1
            | (r, s1) \<Rightarrow> (r, s1))
      else (Ok, s))"

text \<open>Calling a callable, at most \<open>n\<close> calls deep.\<close>

primrec call :: "nat \<Rightarrow> invoke" where
  "call 0 = (\<lambda>h a s. (OutOfFuel, s))"
| "call (Suc n) = (\<lambda>h a s.
     (case h of
        BoundEvent t ev \<Rightarrow> Event_call n (call n) t ev a s
      | BoundTransaction t m \<Rightarrow> Transaction_call n (call n) t m s
      | Fn l cs \<Rightarrow> exec n (call n) cs s))"

section \<open>Construction\<close>

text \<open>
  \<open>cls()\<close> for \<open>Task\<close> and \<open>Future\<close>: a new object at a fresh address, running, with no
  open transaction, no subscribers, no exception, no adopted tasks and no result.
\<close>

definition init_task :: task where
  "init_task =
     \<lparr>p_running = True, p_event_signal_queue = None, subscribers = (\<lambda>ev. []),
      event_method = (\<lambda>k. []), transaction_method = (\<lambda>k. []), p_exception = PNone,
      p_adopted_tasks = [], p_result = PNone, p_succeeded = False\<rparr>"

definition new_task :: "state \<Rightarrow> tid \<times> state" where
  "new_task s = (next_id s, s\<lparr>tasks := (tasks s)(next_id s := init_task), next_id := Suc (next_id s)\<rparr>)"

text \<open>\<open>Task.create_failure\<close> and \<open>Future.create_success\<close>; \<open>res\<close> is returned when the outcome is \<open>Ok\<close>.\<close>

definition create_failure :: "nat \<Rightarrow> pyval \<Rightarrow> state \<Rightarrow> outcome \<times> tid \<times> state" where
  "create_failure n e s =
     (case new_task s of
        (res, s1) \<Rightarrow> (case call n (BoundEvent res OnFailure) e s1 of (r, s2) \<Rightarrow> (r, res, s2)))"

definition create_success :: "nat \<Rightarrow> pyval \<Rightarrow> state \<Rightarrow> outcome \<times> tid \<times> state" where
  "create_success n v s =
     (case new_task s of
        (res, s1) \<Rightarrow> (case call n (BoundEvent res OnSuccess) v s1 of (r, s2) \<Rightarrow> (r, res, s2)))"

section \<open>Relations between states, and example states\<close>

text \<open>
  \<open>evolves s s'\<close>: what every operation of the library keeps between the state it starts in
  and the state it ends in. A task that is not running stays so, with its exception, result
  and success flag as they are; a transaction is open on a task afterwards exactly when it
  was open before; the declared methods never change.
\<close>

definition evolves :: "state \<Rightarrow> state \<Rightarrow> bool" where
  "evolves s s' =
     (\<forall>t. (\<not> p_running (tasks s t) \<longrightarrow>
            \<not> p_running (tasks s' t) \<and> p_exception (tasks s' t) = p_exception (tasks s t) \<and>
            p_result (tasks s' t) = p_result (tasks s t) \<and>
            p_succeeded (tasks s' t) = p_succeeded (tasks s t)) \<and>
          (p_event_signal_queue (tasks s' t) = None \<longleftrightarrow> p_event_signal_queue (tasks s t) = None) \<and>
          event_method (tasks s' t) = event_method (tasks s t) \<and>
          transaction_method (tasks s' t) = transaction_method (tasks s t))"

text \<open>\<open>only_stops s s'\<close>: nothing changed but running flags, and those only from true to false.\<close>

definition only_stops :: "state \<Rightarrow> state \<Rightarrow> bool" where
  "only_stops s s' =
     (trace s' = trace s \<and> next_id s' = next_id s \<and>
      (\<forall>u. tasks s' u = (tasks s u)\<lparr>p_running := p_running (tasks s' u)\<rparr> \<and>
           (p_running (tasks s' u) \<longrightarrow> p_running (tasks s u))))"

definition evolving :: "invoke \<Rightarrow> bool" where
  "evolving c = (\<forall>h a s. evolves s (snd (c h a s)))"

text \<open>The tasks that are running.\<close>

definition running_tasks :: "state \<Rightarrow> tid set" where
  "running_tasks s = {u. p_running (tasks s u)}"

text \<open>
  Two fresh tasks at the addresses 0 and 1; the addresses not yet allocated hold \<open>idle\<close>,
  which is not running.
\<close>

definition idle :: task where
  "idle = init_task\<lparr>p_running := False\<rparr>"

definition two_tasks :: state where
  "two_tasks = \<lparr>tasks = (\<lambda>t. if t < 2 then init_task else idle), next_id = 2, trace = []\<rparr>"

text \<open>The adoption graph: an edge from every task to each task it adopted.\<close>

definition adopts :: "state \<Rightarrow> (tid \<times> tid) set" where
  "adopts s = {(u, v). v \<in> set (p_adopted_tasks (tasks s u))}"

text \<open>
  Three tasks: the tasks 0 and 1 each have a subscriber of their \<open>on_failure\<close>, which logs
  7 and 8, and task 1 has adopted task 2.
\<close>

definition family :: state where
  "family = adopt_task 1 2 None (iadd 1 OnFailure (Fn 8 [Log 8]) (iadd 0 OnFailure (Fn 7 [Log 7])
     \<lparr>tasks = (\<lambda>t. if t < 3 then init_task else idle), next_id = 3, trace = []\<rparr>))"

text \<open>Task 0 is stopped; it declares an event whose body logs 1.\<close>

definition stopped_task :: state where
  "stopped_task = upd 0 (\<lambda>x. x\<lparr>p_running := False, event_method := (\<lambda>k. [Log 1])\<rparr>) two_tasks"





text \<open>
  Task 0 declares the transaction methods 0 (log 1, fire event 0, call method 1, fire
  event 1) and 1 (log 2, fire event 2). The body of event \<open>k\<close> logs \<open>10 + k\<close>, its only
  subscriber logs \<open>20 + k\<close>.
\<close>

definition nested_methods :: state where
  "nested_methods =
     upd 0 (\<lambda>x. x\<lparr>transaction_method := (\<lambda>m. if m = 0
                    then [Log 1, Call (BoundEvent 0 (UserEvent 0)) PNone,
                          Call (BoundTransaction 0 1) PNone, Call (BoundEvent 0 (UserEvent 1)) PNone]
                    else [Log 2, Call (BoundEvent 0 (UserEvent 2)) PNone]),
                event_method := (\<lambda>k. [Log (10 + k)]),
                subscribers := (\<lambda>ev. case ev of UserEvent k \<Rightarrow> [Fn (20 + k) [Log (20 + k)]] | _ \<Rightarrow> [])\<rparr>)
       two_tasks"

text \<open>Commands that change a subscriber list and nothing else.\<close>

fun channel_cmd :: "cmd \<Rightarrow> bool" where
  "channel_cmd (Subscribe t ev h) = True"
| "channel_cmd (Unsubscribe t ev h) = True"
| "channel_cmd x = False"

text \<open>
  A recorder is a client function that logs its own label when it is invoked and then
  subscribes and unsubscribes handlers, on any channel.
\<close>

fun recorder :: "handler \<Rightarrow> bool" where
  "recorder (Fn l (Log l' # cs)) = (l' = l \<and> list_all channel_cmd cs)"
| "recorder h = False"

fun label :: "handler \<Rightarrow> nat" where
  "label (Fn l cs) = l"
| "label h = 0"

text \<open>
  Handler 1 is the only subscriber of event 0 of task 0. The transaction method of task 0
  fires the event, then subscribes handler 2 and unsubscribes handler 1.
\<close>

definition resubscribing :: state where
  "resubscribing =
     upd 0 (\<lambda>x. x\<lparr>transaction_method := (\<lambda>m. [Call (BoundEvent 0 (UserEvent 0)) PNone,
                  Subscribe 0 (UserEvent 0) (Fn 2 [Log 2]),
                  Unsubscribe 0 (UserEvent 0) (Fn 1 [Log 1])]),
                subscribers := (subscribers x)(UserEvent 0 := [Fn 1 [Log 1]])\<rparr>) two_tasks"

text \<open>
  The subscribers of event 0 of task 0 are the handlers 1 and 2; handler 1, when invoked,
  unsubscribes handler 2 and subscribes a handler 3.
\<close>

definition self_modifying :: state where
  "self_modifying =
     upd 0 (\<lambda>x. x\<lparr>subscribers := (subscribers x)(UserEvent 0 :=
        [Fn 1 [Log 1, Unsubscribe 0 (UserEvent 0) (Fn 2 [Log 2]),
               Subscribe 0 (UserEvent 0) (Fn 3 [Log 3])],
         Fn 2 [Log 2]])\<rparr>) two_tasks"


text \<open>
  What the specification says a notification pass invokes: the handlers of the list, in
  order, up to and including the first one that does not return.
\<close>

fun invoked :: "invoke \<Rightarrow> handler list \<Rightarrow> pyval \<Rightarrow> state \<Rightarrow> handler list" where
  "invoked c [] a s = []"
| "invoked c (h # hs) a s =
     h # (case c h a s of (Ok, s1) \<Rightarrow> invoked c hs a s1 | (r, s1) \<Rightarrow> [])"

text \<open>
  \<open>resubscribing\<close> inside its transaction method, and at the end of the method's body: the
  fire is queued, handler 2 has been subscribed and handler 1 unsubscribed.
\<close>

definition resubscribing_entered :: state where
  "resubscribing_entered = upd 0 (\<lambda>x. x\<lparr>p_event_signal_queue := Some []\<rparr>) resubscribing"

definition resubscribing_at_flush :: state where
  "resubscribing_at_flush =
     upd 0 (\<lambda>x. x\<lparr>p_event_signal_queue := Some [DoCall 0 (UserEvent 0) PNone],
                subscribers := (subscribers x)(UserEvent 0 := [Fn 2 [Log 2]])\<rparr>) resubscribing"

text \<open>
  What the specification says of code that runs inside an open transaction of task \<open>t\<close>:
  every body runs at its call site and no subscriber is invoked; an event fired on \<open>t\<close>
  while it is running runs its body and then, when the body has returned, appends its
  notification to the queue; an event fired on \<open>t\<close> when it is not running does nothing.
  The result is how the code ends, the notifications appended, in the order in which they
  were appended, and the state. It covers every command but calls of the callables of
  other tasks; it takes no invoker of handlers.
\<close>

fun deferred :: "nat \<Rightarrow> tid \<Rightarrow> cmd list \<Rightarrow> state \<Rightarrow> (outcome \<times> thunk list \<times> state) option"
  and deferred_cmd :: "nat \<Rightarrow> tid \<Rightarrow> cmd \<Rightarrow> state \<Rightarrow> (outcome \<times> thunk list \<times> state) option"
where
  "deferred n t [] s = Some (Ok, [], s)"
| "deferred n t (x # cs) s =
     (case deferred_cmd n t x s of
        None \<Rightarrow> None
      | Some (Ok, q1, s1) \<Rightarrow>
          (case deferred n t cs s1 of
             None \<Rightarrow> None
           | Some (r, q2, s2) \<Rightarrow> Some (r, q1 @ q2, s2))
      | Some (r, q1, s1) \<Rightarrow> Some (r, q1, s1))"
| "deferred_cmd 0 t (Call h a) s = Some (OutOfFuel, [], s)"
| "deferred_cmd (Suc n) t (Call (BoundEvent u ev) a) s =
     (if u \<noteq> t then None
      else if \<not> p_running (tasks s t) then Some (Ok, [], s)
      else (case (case ev of
                    OnFailure \<Rightarrow> (case on_failure n t a s of (r, s1) \<Rightarrow> Some (r, [], s1))
                  | OnSuccess \<Rightarrow> (case on_success n t a s of (r, s1) \<Rightarrow> Some (r, [], s1))
                  | UserEvent k \<Rightarrow> deferred n t (event_method (tasks s t) k) s) of
              None \<Rightarrow> None
            | Some (Ok, q1, s1) \<Rightarrow>
                Some (Ok, q1 @ [DoCall t ev a], queue_append t (DoCall t ev a) s1)
            | Some (r, q1, s1) \<Rightarrow> Some (r, q1, s1)))"
| "deferred_cmd (Suc n) t (Call (BoundTransaction u m) a) s =
     (if u \<noteq> t then None else deferred n t (transaction_method (tasks s t) m) s)"
| "deferred_cmd (Suc n) t (Call (Fn l cs) a) s = deferred n t cs s"
| "deferred_cmd n t x s =
     (case exec_cmd n (\<lambda>h a s. (OutOfFuel, s)) x s of (r, s1) \<Rightarrow> Some (r, [], s1))"

text \<open>
  Task 0 has a transaction method whose body fires event 0; the body of event 0 logs 10,
  fires event 1 and logs 12; the body of event 1 logs 11; the subscriber of event \<open>k\<close>
  logs \<open>20 + k\<close>.
\<close>

definition nested_events :: state where
  "nested_events =
     upd 0 (\<lambda>x. x\<lparr>transaction_method := (\<lambda>m. [Call (BoundEvent 0 (UserEvent 0)) PNone]),
                event_method := (\<lambda>k. if k = 0
                    then [Log 10, Call (BoundEvent 0 (UserEvent 1)) PNone, Log 12]
                    else [Log 11]),
                subscribers := (\<lambda>ev. case ev of UserEvent k \<Rightarrow> [Fn (20 + k) [Log (20 + k)]] | _ \<Rightarrow> [])\<rparr>)
       two_tasks"

text \<open>
  Task 0 has a transaction method whose body logs 1, fires \<open>on_success\<close>, fires event 0 and
  logs 2; the body of event 0 logs 10; the subscriber of \<open>on_success\<close> logs 30 and the
  subscriber of event 0 logs 20.
\<close>

definition succeeding :: state where
  "succeeding =
     upd 0 (\<lambda>x. x\<lparr>transaction_method := (\<lambda>m. [Log 1, Call (BoundEvent 0 OnSuccess) (PInt 5),
                                               Call (BoundEvent 0 (UserEvent 0)) PNone, Log 2]),
                event_method := (\<lambda>k. [Log 10]),
                subscribers := (\<lambda>ev. case ev of UserEvent k \<Rightarrow> [Fn 20 [Log 20]]
                                  | OnSuccess \<Rightarrow> [Fn 30 [Log 30]] | _ \<Rightarrow> [])\<rparr>)
       two_tasks"

text \<open>
  \<open>appends t s s'\<close>: if a transaction of task \<open>t\<close> is open in \<open>s\<close>, it is still open in \<open>s'\<close>
  and its queue is the queue of \<open>s\<close> with further entries at its end.
\<close>

definition appends :: "tid \<Rightarrow> state \<Rightarrow> state \<Rightarrow> bool" where
  "appends t s s' =
     (\<forall>q. p_event_signal_queue (tasks s t) = Some q \<longrightarrow>
          (\<exists>q'. p_event_signal_queue (tasks s' t) = Some (q @ q')))"

definition appending :: "tid \<Rightarrow> invoke \<Rightarrow> bool" where
  "appending t c = (\<forall>h a s. appends t s (snd (c h a s)))"

section \<open>Invariants of the interpreter\<close>

lemma tasks_upd [simp]: "tasks (upd t f s) u = (if u = t then f (tasks s t) else tasks s u)"
  by (simp add: upd_def)

lemma trace_upd [simp]: "trace (upd t f s) = trace s"
  by (simp add: upd_def)

lemma next_id_upd [simp]: "next_id (upd t f s) = next_id s"
  by (simp add: upd_def)

lemma upd_triv: "f (tasks s t) = tasks s t \<Longrightarrow> upd t f s = s"
  by (simp add: upd_def)

lemma evolves_refl [simp]: "evolves s s"
  by (simp add: evolves_def)

lemma evolvesD:
  assumes "evolves s s'"
  shows "\<not> p_running (tasks s t) \<Longrightarrow> \<not> p_running (tasks s' t)"
    and "\<not> p_running (tasks s t) \<Longrightarrow> p_exception (tasks s' t) = p_exception (tasks s t)"
    and "\<not> p_running (tasks s t) \<Longrightarrow> p_result (tasks s' t) = p_result (tasks s t)"
    and "\<not> p_running (tasks s t) \<Longrightarrow> p_succeeded (tasks s' t) = p_succeeded (tasks s t)"
    and "(p_event_signal_queue (tasks s' t) = None) = (p_event_signal_queue (tasks s t) = None)"
    and "event_method (tasks s' t) = event_method (tasks s t)"
    and "transaction_method (tasks s' t) = transaction_method (tasks s t)"
  using assms unfolding evolves_def by blast+

lemma evolves_trans:
  assumes "evolves s1 s2" and "evolves s2 s3"
  shows "evolves s1 s3"
  unfolding evolves_def
proof (intro allI)
  fix t
  note a = evolvesD [OF assms(1), of t] and b = evolvesD [OF assms(2), of t]
  show "(\<not> p_running (tasks s1 t) \<longrightarrow>
            \<not> p_running (tasks s3 t) \<and> p_exception (tasks s3 t) = p_exception (tasks s1 t) \<and>
            p_result (tasks s3 t) = p_result (tasks s1 t) \<and>
            p_succeeded (tasks s3 t) = p_succeeded (tasks s1 t)) \<and>
          (p_event_signal_queue (tasks s3 t) = None \<longleftrightarrow> p_event_signal_queue (tasks s1 t) = None) \<and>
          event_method (tasks s3 t) = event_method (tasks s1 t) \<and>
          transaction_method (tasks s3 t) = transaction_method (tasks s1 t)"
    using a b by simp
qed

lemma only_stops_refl [simp]: "only_stops s s"
  by (simp add: only_stops_def)

lemma only_stopsD:
  assumes "only_stops s s'"
  shows "trace s' = trace s" and "next_id s' = next_id s"
    and "tasks s' u = (tasks s u)\<lparr>p_running := p_running (tasks s' u)\<rparr>"
    and "p_running (tasks s' u) \<Longrightarrow> p_running (tasks s u)"
  using assms unfolding only_stops_def by blast+

lemma only_stops_trans:
  assumes "only_stops s1 s2" and "only_stops s2 s3"
  shows "only_stops s1 s3"
  unfolding only_stops_def
proof (intro conjI allI)
  fix u
  show "trace s3 = trace s1"
    using only_stopsD(1) [OF assms(1)] only_stopsD(1) [OF assms(2)] by simp
  show "next_id s3 = next_id s1"
    using only_stopsD(2) [OF assms(1)] only_stopsD(2) [OF assms(2)] by simp
  have "tasks s3 u = ((tasks s1 u)\<lparr>p_running := p_running (tasks s2 u)\<rparr>)\<lparr>p_running := p_running (tasks s3 u)\<rparr>"
    using only_stopsD(3) [OF assms(1), of u] only_stopsD(3) [OF assms(2), of u] by simp
  then show "tasks s3 u = (tasks s1 u)\<lparr>p_running := p_running (tasks s3 u)\<rparr>" by simp
  show "p_running (tasks s3 u) \<longrightarrow> p_running (tasks s1 u)"
    using only_stopsD(4) [OF assms(1), of u] only_stopsD(4) [OF assms(2), of u] by blast
qed

lemma only_stops_upd: "only_stops s (upd t (\<lambda>x. x\<lparr>p_running := False\<rparr>) s)"
  by (simp add: only_stops_def)

lemma stop_only_stops:
  "only_stops s (snd (stop n t s))"
  "only_stops s (snd (stop_adopted n ts s))"
  "only_stops s (snd (stop_task n ot s))"
proof (induction n t s and n ts s and n ot s rule: stop_stop_adopted_stop_task.induct)
  case (2 n t s)
  then show ?case
    by (auto intro: only_stops_trans [OF only_stops_upd])
next
  case (4 n i rest s)
  show ?case
  proof (cases "stop_task n (Some i) s")
    case (Pair r s1)
    with 4 show ?thesis
      by (cases r) (auto intro: only_stops_trans)
  qed
qed simp_all

lemma only_stops_evolves:
  assumes "only_stops s s'"
  shows "evolves s s'"
  unfolding evolves_def
proof (intro allI)
  fix t
  obtain b where "tasks s' t = (tasks s t)\<lparr>p_running := b\<rparr>"
    using only_stopsD(3) [OF assms, of t] by blast
  moreover have "p_running (tasks s' t) \<longrightarrow> p_running (tasks s t)"
    using only_stopsD(4) [OF assms, of t] by blast
  ultimately show "(\<not> p_running (tasks s t) \<longrightarrow>
            \<not> p_running (tasks s' t) \<and> p_exception (tasks s' t) = p_exception (tasks s t) \<and>
            p_result (tasks s' t) = p_result (tasks s t) \<and>
            p_succeeded (tasks s' t) = p_succeeded (tasks s t)) \<and>
          (p_event_signal_queue (tasks s' t) = None \<longleftrightarrow> p_event_signal_queue (tasks s t) = None) \<and>
          event_method (tasks s' t) = event_method (tasks s t) \<and>
          transaction_method (tasks s' t) = transaction_method (tasks s t)"
    by auto
qed

lemma stop_evolves: "evolves s (snd (stop n t s))"
  by (rule only_stops_evolves) (rule stop_only_stops)

lemma stop_task_evolves: "evolves s (snd (stop_task n ot s))"
  by (rule only_stops_evolves) (rule stop_only_stops)

lemma iadd_evolves: "evolves s (iadd t ev h s)"
  by (simp add: evolves_def iadd_def)

lemma isub_evolves: "evolves s (snd (isub t ev h s))"
  by (simp add: evolves_def isub_def)

lemma adopt_task_evolves: "evolves s (adopt_task p ch fh s)"
  by (simp add: evolves_def adopt_task_def iadd_def Let_def)

lemma queue_append_evolves: "evolves s (queue_append t fn s)"
  by (simp add: evolves_def queue_append_def)

lemma evolvingD: "evolving c \<Longrightarrow> evolves s (snd (c h a s))"
  by (simp add: evolving_def)

lemma exec_cmd_evolves:
  assumes c: "evolving c"
  shows "evolves s (snd (exec_cmd n c x s))"
proof (cases x)
  case (Log l)
  then show ?thesis by (simp add: evolves_def)
qed (simp_all add: evolvingD [OF c] iadd_evolves isub_evolves stop_evolves stop_task_evolves adopt_task_evolves)

lemma exec_evolves:
  assumes c: "evolving c"
  shows "evolves s (snd (exec n c xs s))"
proof (induction xs arbitrary: s)
  case Nil
  show ?case by simp
next
  case (Cons x xs)
  obtain r s1 where x: "exec_cmd n c x s = (r, s1)" by (cases "exec_cmd n c x s")
  have e1: "evolves s s1" using exec_cmd_evolves [OF c, where s = s and n = n and x = x] x by simp
  show ?case
  proof (cases r)
    case Ok
    then show ?thesis using x e1 Cons [of s1] by (simp add: evolves_trans)
  qed (use x e1 in simp_all)
qed

lemma notify_evolves:
  assumes c: "evolving c"
  shows "evolves s (snd (notify c hs a s))"
proof (induction hs arbitrary: s)
  case Nil
  show ?case by simp
next
  case (Cons h hs)
  obtain r s1 where x: "c h a s = (r, s1)" by (cases "c h a s")
  have e1: "evolves s s1" using evolvingD [OF c, where s = s and h = h and a = a] x by simp
  show ?case
  proof (cases r)
    case Ok
    then show ?thesis using x e1 Cons [of s1] by (simp add: evolves_trans)
  qed (use x e1 in simp_all)
qed

lemma do_call_evolves:
  assumes c: "evolving c"
  shows "evolves s (snd (do_call c th s))"
  by (cases th) (simp add: notify_evolves [OF c])

lemma run_queue_evolves:
  assumes c: "evolving c"
  shows "evolves s (snd (run_queue c q s))"
proof (induction q arbitrary: s)
  case Nil
  show ?case by simp
next
  case (Cons th q)
  obtain r s1 where x: "do_call c th s = (r, s1)" by (cases "do_call c th s")
  have e1: "evolves s s1" using do_call_evolves [OF c, where s = s and th = th] x by simp
  show ?case
  proof (cases r)
    case Ok
    then show ?thesis using x e1 Cons [of s1] by (simp add: evolves_trans)
  qed (use x e1 in simp_all)
qed

text \<open>A transaction context as a whole: enter, body, exit.\<close>

lemma transaction_bracket_evolves:
  assumes c: "evolving c"
    and enter: "transaction_enter t s = (outermost, s1)"
    and body: "evolves s1 s2"
  shows "evolves s (snd (transaction_exit c t outermost r s2))"
proof (cases "p_event_signal_queue (tasks s t)")
  case (Some q)
  then have "outermost = False" "s1 = s"
    using enter by (simp_all add: transaction_enter_def)
  then show ?thesis using body by (simp add: transaction_exit_def)
next
  case None
  then have o: "outermost = True" and s1: "s1 = upd t (\<lambda>x. x\<lparr>p_event_signal_queue := Some []\<rparr>) s"
    using enter by (auto simp add: transaction_enter_def)
  let ?s3 = "upd t (\<lambda>x. x\<lparr>p_event_signal_queue := None\<rparr>) s2"
  have e3: "evolves s ?s3"
    unfolding evolves_def
  proof (intro allI)
    fix u
    note b = evolvesD [OF body, of u]
    show "(\<not> p_running (tasks s u) \<longrightarrow>
            \<not> p_running (tasks ?s3 u) \<and> p_exception (tasks ?s3 u) = p_exception (tasks s u) \<and>
            p_result (tasks ?s3 u) = p_result (tasks s u) \<and>
            p_succeeded (tasks ?s3 u) = p_succeeded (tasks s u)) \<and>
          (p_event_signal_queue (tasks ?s3 u) = None \<longleftrightarrow> p_event_signal_queue (tasks s u) = None) \<and>
          event_method (tasks ?s3 u) = event_method (tasks s u) \<and>
          transaction_method (tasks ?s3 u) = transaction_method (tasks s u)"
      using b None by (cases "u = t") (simp_all add: s1)
  qed
  show ?thesis
    using e3 evolves_trans [OF e3 run_queue_evolves [OF c, of ?s3]]
    by (simp add: o transaction_exit_def Let_def)
qed

lemma transaction_enter_cases:
  obtains outermost s1 where "transaction_enter t s = (outermost, s1)"
  by (cases "transaction_enter t s")

lemma run_within_transaction_evolves:
  assumes c: "evolving c"
  shows "evolves s (snd (run_within_transaction c t fn s))"
proof -
  obtain outermost s1 where e: "transaction_enter t s = (outermost, s1)"
    by (rule transaction_enter_cases)
  show ?thesis
    using transaction_bracket_evolves [OF c e queue_append_evolves]
    by (simp add: run_within_transaction_def e)
qed

lemma Transaction_call_evolves:
  assumes c: "evolving c"
  shows "evolves s (snd (Transaction_call n c t m s))"
proof -
  obtain outermost s1 where e: "transaction_enter t s = (outermost, s1)"
    by (rule transaction_enter_cases)
  obtain r s2 where b: "exec n c (transaction_method (tasks s1 t) m) s1 = (r, s2)"
    by (cases "exec n c (transaction_method (tasks s1 t) m) s1")
  have "evolves s1 s2"
    using exec_evolves [OF c, where s = s1 and n = n and xs = "transaction_method (tasks s1 t) m"] b
    by simp
  from transaction_bracket_evolves [OF c e this]
  show ?thesis by (simp add: Transaction_call_def e b)
qed

lemma on_failure_evolves:
  assumes "p_running (tasks s t)"
  shows "evolves s (snd (on_failure n t e s))"
proof -
  have "evolves s (upd t (\<lambda>x. x\<lparr>p_exception := e\<rparr>) s)"
    using assms by (simp add: evolves_def)
  from evolves_trans [OF this stop_evolves] show ?thesis
    by (simp add: on_failure_def)
qed

lemma on_success_evolves:
  assumes "p_running (tasks s t)"
  shows "evolves s (snd (on_success n t v s))"
proof -
  have "evolves s (upd t (\<lambda>x. x\<lparr>p_result := v, p_succeeded := True\<rparr>) s)"
    using assms by (simp add: evolves_def)
  from evolves_trans [OF this stop_evolves] show ?thesis
    by (simp add: on_success_def)
qed

lemma call_method_evolves:
  assumes c: "evolving c"
    and "p_running (tasks s t)"
  shows "evolves s (snd (call_method n c t ev a s))"
  using assms(2)
  by (cases ev) (simp_all add: on_failure_evolves on_success_evolves exec_evolves [OF c])

lemma Event_call_evolves:
  assumes c: "evolving c"
  shows "evolves s (snd (Event_call n c t ev a s))"
proof (cases "p_running (tasks s t)")
  case False
  then show ?thesis by (simp add: Event_call_def)
next
  case True
  obtain r s1 where b: "call_method n c t ev a s = (r, s1)"
    by (cases "call_method n c t ev a s")
  have e1: "evolves s s1" using call_method_evolves [OF c True, where n = n and ev = ev and a = a] b by simp
  show ?thesis
  proof (cases r)
    case Ok
    then show ?thesis
      using True b evolves_trans [OF e1 run_within_transaction_evolves [OF c]]
      by (simp add: Event_call_def)
  qed (use True b e1 in \<open>simp_all add: Event_call_def\<close>)
qed

lemma call_evolving: "evolving (call n)"
proof (induction n)
  case 0
  show ?case by (simp add: evolving_def)
next
  case (Suc n)
  show ?case
    unfolding evolving_def
  proof (intro allI)
    fix h a s
    show "evolves s (snd (call (Suc n) h a s))"
      by (cases h)
        (simp_all add: Event_call_evolves [OF Suc] Transaction_call_evolves [OF Suc] exec_evolves [OF Suc])
  qed
qed

lemma call_evolves: "evolves s (snd (call n h a s))"
  by (rule evolvingD [OF call_evolving])

section \<open>Stopping\<close>

lemma only_stops_running_tasks:
  assumes "only_stops s s'"
  shows "running_tasks s' \<subseteq> running_tasks s"
  using only_stopsD(4) [OF assms] by (auto simp add: running_tasks_def)

lemma stop_adopted_returns:
  assumes stop: "\<And>s t. finite (running_tasks s) \<Longrightarrow> card (running_tasks s) \<le> n \<Longrightarrow>
      p_running (tasks s t) \<Longrightarrow> fst (stop n t s) = Ok"
    and "finite (running_tasks s)" and "card (running_tasks s) \<le> n"
  shows "fst (stop_adopted n ts s) = Ok"
  using assms(2,3)
proof (induction ts arbitrary: s)
  case Nil
  show ?case by simp
next
  case (Cons i ts)
  obtain r s1 where x: "stop_task n (Some i) s = (r, s1)" by (cases "stop_task n (Some i) s")
  have r: "r = Ok"
    using x stop [OF Cons.prems, of i] by (auto simp add: running_def split: if_splits)
  have "only_stops s s1" using stop_only_stops(3) [of s n "Some i"] x by simp
  then have sub: "running_tasks s1 \<subseteq> running_tasks s" by (rule only_stops_running_tasks)
  have f: "finite (running_tasks s1)" using sub Cons.prems(1) by (rule finite_subset)
  have "card (running_tasks s1) \<le> card (running_tasks s)"
    using sub Cons.prems(1) by (simp add: card_mono)
  then have "card (running_tasks s1) \<le> n" using Cons.prems(2) by simp
  from Cons.IH [OF f this] show ?case using x r by simp
qed

lemma stop_returns:
  assumes "finite (running_tasks s)" and "card (running_tasks s) \<le> n" and "p_running (tasks s t)"
  shows "fst (stop n t s) = Ok"
  using assms
proof (induction n arbitrary: s t)
  case 0
  then have "running_tasks s = {}" by simp
  with 0(3) show ?case by (simp add: running_tasks_def)
next
  case (Suc n)
  let ?s1 = "upd t (\<lambda>x. x\<lparr>p_running := False\<rparr>) s"
  have eq: "running_tasks ?s1 = running_tasks s - {t}"
    by (auto simp add: running_tasks_def)
  have t: "t \<in> running_tasks s" using Suc.prems(3) by (simp add: running_tasks_def)
  have f: "finite (running_tasks ?s1)" using Suc.prems(1) by (simp add: eq)
  have c: "card (running_tasks ?s1) \<le> n"
    using Suc.prems(1,2) t by (simp add: eq)
  have "fst (stop_adopted n (p_adopted_tasks (tasks s t)) ?s1) = Ok"
    by (rule stop_adopted_returns [OF Suc.IH f c])
  then show ?case using Suc.prems(3) by simp
qed

lemma stop_not_running:
  assumes "p_running (tasks s t)"
  shows "\<not> p_running (tasks (snd (stop (Suc n) t s)) t)"
proof -
  let ?s1 = "upd t (\<lambda>x. x\<lparr>p_running := False\<rparr>) s"
  have "only_stops ?s1 (snd (stop_adopted n (p_adopted_tasks (tasks s t)) ?s1))"
    by (rule stop_only_stops)
  from only_stopsD(4) [OF this, of t] show ?thesis using assms by auto
qed

lemma new_task_other: "t \<noteq> next_id s \<Longrightarrow> tasks (snd (new_task s)) t = tasks s t"
  by (simp add: new_task_def)

lemma create_failure_evolves:
  assumes "t \<noteq> next_id s" and "\<not> p_running (tasks s t)"
  shows "\<not> p_running (tasks (snd (snd (create_failure n e s))) t)"
proof -
  have "snd (snd (create_failure n e s)) = snd (call n (BoundEvent (next_id s) OnFailure) e (snd (new_task s)))"
    by (simp add: create_failure_def new_task_def split: prod.splits)
  moreover have "\<not> p_running (tasks (snd (new_task s)) t)"
    using assms by (simp add: new_task_other)
  ultimately show ?thesis using evolvesD(1) [OF call_evolves] by simp
qed

lemma create_success_evolves:
  assumes "t \<noteq> next_id s" and "\<not> p_running (tasks s t)"
  shows "\<not> p_running (tasks (snd (snd (create_success n e s))) t)"
proof -
  have "snd (snd (create_success n e s)) = snd (call n (BoundEvent (next_id s) OnSuccess) e (snd (new_task s)))"
    by (simp add: create_success_def new_task_def split: prod.splits)
  moreover have "\<not> p_running (tasks (snd (new_task s)) t)"
    using assms by (simp add: new_task_other)
  ultimately show ?thesis using evolvesD(1) [OF call_evolves] by simp
qed

section \<open>Events inside and outside a transaction\<close>

lemma upd_upd [simp]: "upd t f (upd t g s) = upd t (\<lambda>x. f (g x)) s"
  by (simp add: upd_def)

lemma queue_None_idem: "p_event_signal_queue x = None \<Longrightarrow> x\<lparr>p_event_signal_queue := None\<rparr> = x"
  by (cases x) simp

lemma run_queue_single: "run_queue c [th] s = do_call c th s"
proof (cases "do_call c th s")
  case (Pair r s1)
  then show ?thesis by (cases r) simp_all
qed

lemma run_within_transaction_outermost:
  assumes "p_event_signal_queue (tasks s t) = None"
  shows "run_within_transaction c t th s = do_call c th s"
proof -
  have "upd t (\<lambda>x. x\<lparr>p_event_signal_queue := None\<rparr>) s = s"
    by (rule upd_triv) (simp add: assms queue_None_idem)
  then show ?thesis
    using assms
    by (simp add: run_within_transaction_def transaction_enter_def transaction_exit_def
        queue_append_def run_queue_single del: run_queue.simps)
qed

lemma run_within_transaction_nested:
  assumes "p_event_signal_queue (tasks s t) = Some q"
  shows "run_within_transaction c t th s =
    (Ok, upd t (\<lambda>x. x\<lparr>p_event_signal_queue := Some (q @ [th])\<rparr>) s)"
  using assms
  by (simp add: run_within_transaction_def transaction_enter_def transaction_exit_def
      queue_append_def upd_def)

lemma Event_call_outermost:
  assumes "p_running (tasks s t)" and "call_method n c t ev a s = (Ok, s1)"
    and "p_event_signal_queue (tasks s1 t) = None"
  shows "Event_call n c t ev a s = notify c (subscribers (tasks s1 t) ev) a s1"
  using assms by (simp add: Event_call_def run_within_transaction_outermost)

lemma Event_call_nested:
  assumes "p_running (tasks s t)" and "call_method n c t ev a s = (Ok, s1)"
    and "p_event_signal_queue (tasks s1 t) = Some q"
  shows "Event_call n c t ev a s =
    (Ok, upd t (\<lambda>x. x\<lparr>p_event_signal_queue := Some (q @ [DoCall t ev a])\<rparr>) s1)"
  using assms by (simp add: Event_call_def run_within_transaction_nested)

lemma notify_single: "snd (notify c [h] a s) = snd (c h a s)"
proof (cases "c h a s")
  case (Pair r s1)
  then show ?thesis by (cases r) simp_all
qed

lemma only_stops_exception:
  assumes "only_stops s s'"
  shows "p_exception (tasks s' u) = p_exception (tasks s u)"
proof -
  have "p_exception (tasks s' u) = p_exception ((tasks s u)\<lparr>p_running := p_running (tasks s' u)\<rparr>)"
    by (rule arg_cong [where f = p_exception]) (rule only_stopsD(3) [OF assms])
  then show ?thesis by simp
qed

text \<open>What firing \<open>on_failure\<close> on a running task with a subscriber does to the task.\<close>

lemma Event_call_on_failure_stops:
  assumes c: "evolving c" and r: "p_running (tasks s p)"
    and subs: "subscribers (tasks s p) OnFailure \<noteq> []"
    and s': "s' = snd (Event_call (Suc n) c p OnFailure e s)"
  shows "\<not> p_running (tasks s' p)" and "p_exception (tasks s' p) = e"
    and "\<not> p_running (tasks s u) \<Longrightarrow> \<not> p_running (tasks s' u)"
proof -
  let ?s1 = "upd p (\<lambda>x. x\<lparr>p_exception := e\<rparr>) s"
  obtain r6 s6 where st: "stop (Suc n) p ?s1 = (r6, s6)" by (cases "stop (Suc n) p ?s1")
  have os: "only_stops ?s1 s6" using stop_only_stops(1) [of ?s1 "Suc n" p] st by simp
  have a: "\<not> p_running (tasks s6 p)"
    using stop_not_running [of ?s1 p n] r st by simp
  have b: "p_exception (tasks s6 p) = e"
    using only_stops_exception [OF os, of p] by simp
  have ev: "evolves s s'"
    unfolding s' by (rule Event_call_evolves [OF c])
  have cm: "call_method (Suc n) c p OnFailure e s = (r6, s6)"
    using subs st by (simp add: on_failure_def)
  have ev6: "evolves s6 s'"
  proof (cases r6)
    case Ok
    have "s' = snd (run_within_transaction c p (DoCall p OnFailure e) s6)"
      using r cm Ok by (simp add: s' Event_call_def)
    then show ?thesis by (simp add: run_within_transaction_evolves [OF c])
  next
    case (Raise x)
    then have "s' = s6" using r cm by (simp add: s' Event_call_def)
    then show ?thesis by simp
  next
    case OutOfFuel
    then have "s' = s6" using r cm by (simp add: s' Event_call_def)
    then show ?thesis by simp
  qed
  show "\<not> p_running (tasks s' p)" using evolvesD(1) [OF ev6 a] .
  show "p_exception (tasks s' p) = e" using evolvesD(2) [OF ev6 a] b by simp
  show "\<not> p_running (tasks s u) \<Longrightarrow> \<not> p_running (tasks s' u)" using evolvesD(1) [OF ev] .
qed

lemma running_tasks_two_tasks: "running_tasks two_tasks = {..<2}"
  by (auto simp add: running_tasks_def two_tasks_def init_task_def idle_def)

subsection \<open>A pass that ends at a raising subscriber\<close>

lemma notify_append:
  assumes "notify c before a s = (Ok, s1)"
  shows "notify c (before @ rest) a s = notify c rest a s1"
  using assms
proof (induction before arbitrary: s)
  case Nil
  then show ?case by simp
next
  case (Cons h hs)
  obtain r s' where x: "c h a s = (r, s')" by (cases "c h a s")
  show ?case
  proof (cases r)
    case Ok
    with Cons x show ?thesis by simp
  next
    case (Raise e)
    with Cons.prems x show ?thesis by (simp split: if_splits)
  next
    case OutOfFuel
    with Cons.prems x show ?thesis by simp
  qed
qed

subsection \<open>The body of a transaction method\<close>

subsection \<open>A pass over recorders\<close>

lemma exec_channel_cmds:
  assumes "list_all channel_cmd cs" and "exec n c cs s = (r, s')"
  shows "trace s' = trace s \<and> (r = Ok \<or> r = Raise ValueError)"
  using assms
proof (induction cs arbitrary: s)
  case Nil
  then show ?case by simp
next
  case (Cons x cs)
  from Cons.prems(1) have x: "channel_cmd x" and cs: "list_all channel_cmd cs" by simp_all
  obtain r1 s1 where e: "exec_cmd n c x s = (r1, s1)" by (cases "exec_cmd n c x s")
  have t1: "trace s1 = trace s \<and> (r1 = Ok \<or> r1 = Raise ValueError)"
    using x e by (cases x) (auto simp add: iadd_def isub_def split: if_splits)
  show ?case
  proof (cases r1)
    case Ok
    with Cons.prems(2) e have "exec n c cs s1 = (r, s')" by simp
    from Cons.IH [OF cs this] t1 show ?thesis by simp
  next
    case (Raise x)
    with Cons.prems(2) e t1 show ?thesis by auto
  next
    case OutOfFuel
    with t1 show ?thesis by simp
  qed
qed

lemma call_recorder:
  assumes "recorder h" and "call (Suc n) h a s = (r, s')"
  shows "trace s' = trace s @ [label h] \<and> (r = Ok \<or> r = Raise ValueError)"
proof -
  from assms(1) obtain l cs where h: "h = Fn l (Log l # cs)" and cs: "list_all channel_cmd cs"
    by (cases h rule: recorder.cases) auto
  from assms(2) have "exec n (call n) cs (s\<lparr>trace := trace s @ [l]\<rparr>) = (r, s')"
    by (simp add: h)
  from exec_channel_cmds [OF cs this] show ?thesis by (simp add: h)
qed

section \<open>The adoption graph\<close>

lemma only_stops_adopted:
  assumes "only_stops s s'"
  shows "p_adopted_tasks (tasks s' u) = p_adopted_tasks (tasks s u)"
proof -
  have "p_adopted_tasks (tasks s' u)
      = p_adopted_tasks ((tasks s u)\<lparr>p_running := p_running (tasks s' u)\<rparr>)"
    by (rule arg_cong [where f = p_adopted_tasks]) (rule only_stopsD(3) [OF assms])
  then show ?thesis by simp
qed

lemma only_stops_adopts:
  assumes "only_stops s s'"
  shows "adopts s' = adopts s"
  by (simp add: adopts_def only_stops_adopted [OF assms])

text \<open>Stopping a task leaves alone every task that it has not adopted, directly or indirectly.\<close>

lemma stop_frame:
  "(t, u) \<notin> (adopts s)\<^sup>* \<Longrightarrow> tasks (snd (stop n t s)) u = tasks s u"
  "\<forall>i\<in>set ts. (i, u) \<notin> (adopts s)\<^sup>* \<Longrightarrow> tasks (snd (stop_adopted n ts s)) u = tasks s u"
  "\<forall>i. ot = Some i \<longrightarrow> (i, u) \<notin> (adopts s)\<^sup>* \<Longrightarrow> tasks (snd (stop_task n ot s)) u = tasks s u"
proof (induction n t s and n ts s and n ot s rule: stop_stop_adopted_stop_task.induct)
  case (1 t s)
  show ?case by simp
next
  case (2 n t s)
  show ?case
  proof (cases "p_running (tasks s t)")
    case False
    then show ?thesis by simp
  next
    case True
    let ?s1 = "upd t (\<lambda>x. x\<lparr>p_running := False\<rparr>) s"
    have a: "adopts ?s1 = adopts s" by (rule only_stops_adopts [OF only_stops_upd])
    have ut: "u \<noteq> t" using 2(2) by auto
    have "\<forall>i\<in>set (p_adopted_tasks (tasks s t)). (i, u) \<notin> (adopts ?s1)\<^sup>*"
    proof
      fix i
      assume "i \<in> set (p_adopted_tasks (tasks s t))"
      then have "(t, i) \<in> adopts s" by (simp add: adopts_def)
      then show "(i, u) \<notin> (adopts ?s1)\<^sup>*"
        using 2(2) a by (auto intro: converse_rtrancl_into_rtrancl)
    qed
    from 2(1) [OF _ this] True ut show ?thesis by simp
  qed
next
  case (3 n s)
  show ?case by simp
next
  case (4 n i rest s)
  obtain r s1 where x: "stop_task n (Some i) s = (r, s1)" by (cases "stop_task n (Some i) s")
  have s1: "tasks s1 u = tasks s u" using 4(1) 4(3) x by simp
  have "only_stops s s1" using stop_only_stops(3) [of s n "Some i"] x by simp
  then have a: "adopts s1 = adopts s" by (rule only_stops_adopts)
  show ?case
  proof (cases r)
    case Ok
    have "tasks (snd (stop_adopted n rest s1)) u = tasks s1 u"
      using 4(2) [OF x [symmetric] Ok] 4(3) a by simp
    then show ?thesis using x Ok s1 by simp
  qed (use x s1 in simp_all)
next
  case (5 n s)
  show ?case by simp
next
  case (6 n t s)
  then show ?case by simp
qed

lemma only_stops_subscribers:
  assumes "only_stops s s'"
  shows "subscribers (tasks s' u) = subscribers (tasks s u)"
proof -
  have "subscribers (tasks s' u) = subscribers ((tasks s u)\<lparr>p_running := p_running (tasks s' u)\<rparr>)"
    by (rule arg_cong [where f = subscribers]) (rule only_stopsD(3) [OF assms])
  then show ?thesis by simp
qed

lemma only_stops_queue:
  assumes "only_stops s s'"
  shows "p_event_signal_queue (tasks s' u) = p_event_signal_queue (tasks s u)"
proof -
  have "p_event_signal_queue (tasks s' u)
      = p_event_signal_queue ((tasks s u)\<lparr>p_running := p_running (tasks s' u)\<rparr>)"
    by (rule arg_cong [where f = p_event_signal_queue]) (rule only_stopsD(3) [OF assms])
  then show ?thesis by simp
qed

lemma adopts_family: "adopts family = {(1, 2)}"
  by (auto simp add: adopts_def family_def adopt_task_def iadd_def init_task_def idle_def Let_def
      split: if_splits)

lemma running_tasks_family: "running_tasks family = {..<3}"
  by (auto simp add: running_tasks_def family_def adopt_task_def iadd_def init_task_def idle_def
      Let_def split: if_splits)

text \<open>The definitions to unfold when a fire is evaluated on a concrete state.\<close>

lemmas fire_defs = Event_call_def on_failure_def on_success_def run_within_transaction_def
  transaction_enter_def transaction_exit_def queue_append_def Transaction_call_def

lemma invoked_prefix: "invoked c hs a s = take (length (invoked c hs a s)) hs"
proof (induction hs arbitrary: s)
  case Nil
  show ?case by simp
next
  case (Cons h hs)
  obtain r s1 where x: "c h a s = (r, s1)" by (cases "c h a s")
  show ?case
  proof (cases r)
    case Ok
    with x Cons [of s1] show ?thesis by simp
  qed (use x in simp_all)
qed

lemma notify_invoked_recorders:
  assumes "list_all recorder hs" and "notify (call (Suc n)) hs a s = (r, s')"
  shows "trace s' = trace s @ map label (invoked (call (Suc n)) hs a s) \<and>
    (r = Ok \<longrightarrow> invoked (call (Suc n)) hs a s = hs) \<and>
    (r \<noteq> Ok \<longrightarrow> r = Raise (EventHandlerException ValueError))"
  using assms
proof (induction hs arbitrary: s)
  case Nil
  then show ?case by simp
next
  case (Cons h hs)
  from Cons.prems(1) have h: "recorder h" and hs: "list_all recorder hs" by simp_all
  obtain r1 s1 where c: "call (Suc n) h a s = (r1, s1)" by (cases "call (Suc n) h a s")
  note t1 = call_recorder [OF h c]
  show ?case
  proof (cases r1)
    case Ok
    with Cons.prems(2) c have "notify (call (Suc n)) hs a s1 = (r, s')"
      by (simp del: call.simps)
    from Cons.IH [OF hs this] t1 c Ok show ?thesis
      by (simp del: call.simps)
  next
    case (Raise e)
    with t1 have e: "e = ValueError" by simp
    from Cons.prems(2) c Raise e have "s' = s1" and "r = Raise (EventHandlerException ValueError)"
      by (simp_all del: call.simps)
    then show ?thesis using t1 c Raise by (simp del: call.simps)
  next
    case OutOfFuel
    with t1 show ?thesis by simp
  qed
qed

lemma subscribers_adopt_task:
  "subscribers (tasks (adopt_task p c None s) c) OnFailure
     = subscribers (tasks s c) OnFailure @ [BoundEvent p OnFailure]"
  by (simp add: adopt_task_def iadd_def Let_def)

lemma running_tasks_adopt_task: "running_tasks (adopt_task p c fh s) = running_tasks s"
  by (auto simp add: running_tasks_def adopt_task_def iadd_def Let_def)

lemma running_tasks_upd_exception:
  "running_tasks (upd t (\<lambda>x. x\<lparr>p_exception := e\<rparr>) s) = running_tasks s"
  by (auto simp add: running_tasks_def)

lemma stop_queue:
  "p_event_signal_queue (tasks (snd (stop n u s)) t) = p_event_signal_queue (tasks s t)"
  by (rule only_stops_queue [OF stop_only_stops(1)])

lemma stop_task_queue:
  "p_event_signal_queue (tasks (snd (stop_task n ou s)) t) = p_event_signal_queue (tasks s t)"
  by (rule only_stops_queue [OF stop_only_stops(3)])

lemma stop_queueD:
  "stop n u s = (r, s') \<Longrightarrow> p_event_signal_queue (tasks s' t) = p_event_signal_queue (tasks s t)"
  "stop_task n ou s = (r, s') \<Longrightarrow> p_event_signal_queue (tasks s' t) = p_event_signal_queue (tasks s t)"
  using stop_queue [of n u s t] stop_task_queue [of n ou s t] by simp_all

lemma on_failure_queue:
  "p_event_signal_queue (tasks (snd (on_failure n u a s)) t) = p_event_signal_queue (tasks s t)"
  by (simp add: on_failure_def stop_queue)

lemma on_success_queue:
  "p_event_signal_queue (tasks (snd (on_success n u a s)) t) = p_event_signal_queue (tasks s t)"
  by (simp add: on_success_def stop_queue)

lemma queue_append_Some:
  assumes "p_event_signal_queue (tasks s t) = Some q"
  shows "queue_append t th s = upd t (\<lambda>x. x\<lparr>p_event_signal_queue := Some (q @ [th])\<rparr>) s"
  using assms by (simp add: queue_append_def upd_def)

text \<open>A fire on a running task inside an open transaction, given what its body does.\<close>

lemma Event_call_deferred:
  assumes "p_running (tasks s t)" and "call_method n (call n) t ev a s = (rb, s1)"
    and "p_event_signal_queue (tasks s1 t) = Some q"
  shows "call (Suc n) (BoundEvent t ev) a s
    = (if rb = Ok then (Ok, queue_append t (DoCall t ev a) s1) else (rb, s1))"
proof (cases rb)
  case Ok
  then show ?thesis
    using Event_call_nested [OF assms(1) _ assms(3)] assms(2) queue_append_Some [OF assms(3)]
    by simp
qed (use assms in \<open>simp_all add: Event_call_def\<close>)

lemma queue_append_queue:
  assumes "p_event_signal_queue (tasks s t) = Some q"
  shows "p_event_signal_queue (tasks (queue_append t th s) t) = Some (q @ [th])"
  using assms by (simp add: queue_append_def)

lemma exec_deferred:
  "deferred n t cs s = Some (r, q', s') \<Longrightarrow> p_event_signal_queue (tasks s t) = Some q \<Longrightarrow>
     exec n (call n) cs s = (r, s') \<and> p_event_signal_queue (tasks s' t) = Some (q @ q')"
  "deferred_cmd n t x s = Some (r, q', s') \<Longrightarrow> p_event_signal_queue (tasks s t) = Some q \<Longrightarrow>
     exec_cmd n (call n) x s = (r, s') \<and> p_event_signal_queue (tasks s' t) = Some (q @ q')"
proof (induction n t cs s and n t x s arbitrary: r q' s' q and r q' s' q
    rule: deferred_deferred_cmd.induct)
  case (1 n t s)
  then show ?case by simp
next
  case (2 n t x cs s)
  from 2(3) obtain r1 q1 s1 where d1: "deferred_cmd n t x s = Some (r1, q1, s1)"
    by (cases "deferred_cmd n t x s") auto
  note x = 2(1) [OF d1 2(4)]
  show ?case
  proof (cases r1)
    case Ok
    from 2(3) d1 Ok obtain q2 where d2: "deferred n t cs s1 = Some (r, q2, s')"
      and q': "q' = q1 @ q2"
      by (auto split: option.splits)
    from 2(2) [OF d1 refl Ok refl d2] x have "exec n (call n) cs s1 = (r, s') \<and>
        p_event_signal_queue (tasks s' t) = Some ((q @ q1) @ q2)"
      by simp
    then show ?thesis using x Ok q' by simp
  next
    case (Raise e)
    with 2(3) d1 x show ?thesis by auto
  next
    case OutOfFuel
    with 2(3) d1 x show ?thesis by auto
  qed
next
  case (3 t h a s)
  then show ?case by simp
next
  case (4 n t u ev a s)
  from 4(2) have u: "u = t" by (simp split: if_splits)
  show ?case
  proof (cases "p_running (tasks s t)")
    case False
    with 4(2,3) u show ?thesis by (simp add: Event_call_def)
  next
    case True
    have "\<exists>rb q1 s1. call_method n (call n) t ev a s = (rb, s1) \<and>
        p_event_signal_queue (tasks s1 t) = Some (q @ q1) \<and>
        (if rb = Ok then r = Ok \<and> q' = q1 @ [DoCall t ev a] \<and> s' = queue_append t (DoCall t ev a) s1
         else r = rb \<and> q' = q1 \<and> s' = s1)"
    proof (cases ev)
      case OnFailure
      obtain rb s1 where b: "on_failure n t a s = (rb, s1)" by (cases "on_failure n t a s")
      have "p_event_signal_queue (tasks s1 t) = Some q"
        using on_failure_queue [of n t a s t] b 4(3) by simp
      then show ?thesis using 4(2) u True OnFailure b by (cases rb) auto
    next
      case OnSuccess
      obtain rb s1 where b: "on_success n t a s = (rb, s1)" by (cases "on_success n t a s")
      have "p_event_signal_queue (tasks s1 t) = Some q"
        using on_success_queue [of n t a s t] b 4(3) by simp
      then show ?thesis using 4(2) u True OnSuccess b by (cases rb) auto
    next
      case (UserEvent k)
      from 4(2) u True UserEvent obtain rb q1 s1
        where d: "deferred n t (event_method (tasks s t) k) s = Some (rb, q1, s1)"
        by (cases "deferred n t (event_method (tasks s t) k) s") auto
      have "exec n (call n) (event_method (tasks s t) k) s = (rb, s1) \<and>
          p_event_signal_queue (tasks s1 t) = Some (q @ q1)"
        by (rule 4(1) [OF _ _ UserEvent d 4(3)]) (simp_all add: u True)
      then show ?thesis using 4(2) u True UserEvent d by (cases rb) auto
    qed
    then obtain rb q1 s1 where b: "call_method n (call n) t ev a s = (rb, s1)"
      and qb: "p_event_signal_queue (tasks s1 t) = Some (q @ q1)"
      and res: "if rb = Ok then r = Ok \<and> q' = q1 @ [DoCall t ev a] \<and>
          s' = queue_append t (DoCall t ev a) s1 else r = rb \<and> q' = q1 \<and> s' = s1"
      by blast
    have "call (Suc n) (BoundEvent t ev) a s
        = (if rb = Ok then (Ok, queue_append t (DoCall t ev a) s1) else (rb, s1))"
      by (rule Event_call_deferred [OF True b qb])
    then show ?thesis
      using res qb queue_append_queue [OF qb, of "DoCall t ev a"] u
      by (cases "rb = Ok") (simp_all del: call.simps)
  qed
next
  case (5 n t u m a s)
  from 5(2) have u: "u = t" and d: "deferred n t (transaction_method (tasks s t) m) s = Some (r, q', s')"
    by (simp_all split: if_splits)
  have "exec n (call n) (transaction_method (tasks s t) m) s = (r, s') \<and>
      p_event_signal_queue (tasks s' t) = Some (q @ q')"
    by (rule 5(1) [OF _ d 5(3)]) (simp add: u)
  then show ?case
    using 5(3) u by (simp add: Transaction_call_def transaction_enter_def transaction_exit_def)
next
  case (6 n t l cs a s)
  from 6(1) [OF _ 6(3)] 6(2) show ?case by simp
qed (auto simp add: iadd_def isub_def adopt_task_def Let_def stop_queueD
    simp del: stop.simps stop_task.simps split: if_splits prod.splits)

lemma appends_same:
  "p_event_signal_queue (tasks s' t) = p_event_signal_queue (tasks s t) \<Longrightarrow> appends t s s'"
  by (simp add: appends_def)

lemma appends_refl: "appends t s s"
  by (simp add: appends_def)

lemma appends_trans:
  assumes "appends t s s1" and "appends t s1 s2"
  shows "appends t s s2"
  unfolding appends_def
proof (intro allI impI)
  fix q
  assume "p_event_signal_queue (tasks s t) = Some q"
  with assms(1) obtain q1 where q1: "p_event_signal_queue (tasks s1 t) = Some (q @ q1)"
    unfolding appends_def by blast
  with assms(2) obtain q2 where "p_event_signal_queue (tasks s2 t) = Some ((q @ q1) @ q2)"
    unfolding appends_def by blast
  then show "\<exists>q'. p_event_signal_queue (tasks s2 t) = Some (q @ q')" by simp
qed

lemma appendingD: "appending t c \<Longrightarrow> appends t s (snd (c h a s))"
  by (simp add: appending_def)

lemma queue_append_appends: "appends t s (queue_append u fn s)"
  by (cases "u = t") (simp_all add: appends_def queue_append_def)

lemma exec_cmd_appends:
  assumes c: "appending t c"
  shows "appends t s (snd (exec_cmd n c x s))"
proof (cases x)
  case (Call h a)
  then show ?thesis by (simp add: appendingD [OF c])
next
  case (Stop u)
  then show ?thesis by (simp add: appends_same stop_queue)
next
  case (StopTask ou)
  then show ?thesis by (simp add: appends_same stop_task_queue)
qed (simp_all add: appends_def iadd_def isub_def adopt_task_def Let_def)

lemma exec_appends:
  assumes c: "appending t c"
  shows "appends t s (snd (exec n c xs s))"
proof (induction xs arbitrary: s)
  case Nil
  show ?case by (simp add: appends_refl)
next
  case (Cons x xs)
  obtain r s1 where x: "exec_cmd n c x s = (r, s1)" by (cases "exec_cmd n c x s")
  have e1: "appends t s s1" using exec_cmd_appends [OF c, where s = s and n = n and x = x] x by simp
  show ?case
  proof (cases r)
    case Ok
    then show ?thesis using x appends_trans [OF e1 Cons [of s1]] by simp
  qed (use x e1 in simp_all)
qed

lemma notify_appends:
  assumes c: "appending t c"
  shows "appends t s (snd (notify c hs a s))"
proof (induction hs arbitrary: s)
  case Nil
  show ?case by (simp add: appends_refl)
next
  case (Cons h hs)
  obtain r s1 where x: "c h a s = (r, s1)" by (cases "c h a s")
  have e1: "appends t s s1" using appendingD [OF c, where s = s and h = h and a = a] x by simp
  show ?case
  proof (cases r)
    case Ok
    then show ?thesis using x appends_trans [OF e1 Cons [of s1]] by simp
  qed (use x e1 in simp_all)
qed

lemma do_call_appends:
  assumes c: "appending t c"
  shows "appends t s (snd (do_call c th s))"
  by (cases th) (simp add: notify_appends [OF c])

lemma run_queue_appends:
  assumes c: "appending t c"
  shows "appends t s (snd (run_queue c q s))"
proof (induction q arbitrary: s)
  case Nil
  show ?case by (simp add: appends_refl)
next
  case (Cons th q)
  obtain r s1 where x: "do_call c th s = (r, s1)" by (cases "do_call c th s")
  have e1: "appends t s s1" using do_call_appends [OF c, where s = s and th = th] x by simp
  show ?case
  proof (cases r)
    case Ok
    then show ?thesis using x appends_trans [OF e1 Cons [of s1]] by simp
  qed (use x e1 in simp_all)
qed

text \<open>A transaction context of any task \<open>u\<close> as a whole, seen from the queue of \<open>t\<close>.\<close>

lemma transaction_bracket_appends:
  assumes c: "appending t c"
    and enter: "transaction_enter u s = (outermost, s1)"
    and body: "appends t s1 s2"
  shows "appends t s (snd (transaction_exit c u outermost r s2))"
proof (cases "p_event_signal_queue (tasks s u)")
  case (Some q)
  then have "outermost = False" "s1 = s"
    using enter by (simp_all add: transaction_enter_def)
  then show ?thesis using body by (simp add: transaction_exit_def)
next
  case None
  then have o: "outermost = True" and s1: "s1 = upd u (\<lambda>x. x\<lparr>p_event_signal_queue := Some []\<rparr>) s"
    using enter by (auto simp add: transaction_enter_def)
  show ?thesis
  proof (cases "u = t")
    case True
    with None show ?thesis by (simp add: appends_def)
  next
    case False
    let ?s3 = "upd u (\<lambda>x. x\<lparr>p_event_signal_queue := None\<rparr>) s2"
    have "appends t s s1" using False by (simp add: s1 appends_same)
    from appends_trans [OF this body] have "appends t s s2" .
    moreover have "appends t s2 ?s3" using False by (simp add: appends_same)
    ultimately have e3: "appends t s ?s3" by (rule appends_trans)
    show ?thesis
      using e3 appends_trans [OF e3 run_queue_appends [OF c, of ?s3]]
      by (simp add: o transaction_exit_def Let_def)
  qed
qed

lemma run_within_transaction_appends:
  assumes c: "appending t c"
  shows "appends t s (snd (run_within_transaction c u fn s))"
proof -
  obtain outermost s1 where e: "transaction_enter u s = (outermost, s1)"
    by (rule transaction_enter_cases)
  show ?thesis
    using transaction_bracket_appends [OF c e queue_append_appends]
    by (simp add: run_within_transaction_def e)
qed

lemma Transaction_call_appends:
  assumes c: "appending t c"
  shows "appends t s (snd (Transaction_call n c u m s))"
proof -
  obtain outermost s1 where e: "transaction_enter u s = (outermost, s1)"
    by (rule transaction_enter_cases)
  obtain r s2 where b: "exec n c (transaction_method (tasks s1 u) m) s1 = (r, s2)"
    by (cases "exec n c (transaction_method (tasks s1 u) m) s1")
  have "appends t s1 s2"
    using exec_appends [OF c, where s = s1 and n = n and xs = "transaction_method (tasks s1 u) m"] b
    by simp
  from transaction_bracket_appends [OF c e this]
  show ?thesis by (simp add: Transaction_call_def e b)
qed

lemma call_method_appends:
  assumes c: "appending t c"
  shows "appends t s (snd (call_method n c u ev a s))"
  by (cases ev) (simp_all add: appends_same on_failure_queue on_success_queue exec_appends [OF c])

lemma Event_call_appends:
  assumes c: "appending t c"
  shows "appends t s (snd (Event_call n c u ev a s))"
proof (cases "p_running (tasks s u)")
  case False
  then show ?thesis by (simp add: Event_call_def appends_refl)
next
  case True
  obtain r s1 where b: "call_method n c u ev a s = (r, s1)"
    by (cases "call_method n c u ev a s")
  have e1: "appends t s s1" using call_method_appends [OF c, where n = n and ev = ev and a = a and u = u and s = s] b
    by simp
  show ?thesis
  proof (cases r)
    case Ok
    then show ?thesis
      using True b appends_trans [OF e1 run_within_transaction_appends [OF c]]
      by (simp add: Event_call_def)
  qed (use True b e1 in \<open>simp_all add: Event_call_def\<close>)
qed

lemma call_appending: "appending t (call n)"
proof (induction n)
  case 0
  show ?case by (simp add: appending_def appends_refl)
next
  case (Suc n)
  show ?case
    unfolding appending_def
  proof (intro allI)
    fix h a s
    show "appends t s (snd (call (Suc n) h a s))"
      by (cases h)
        (simp_all add: Event_call_appends [OF Suc] Transaction_call_appends [OF Suc] exec_appends [OF Suc])
  qed
qed

lemma call_appends:
  assumes "p_event_signal_queue (tasks s t) = Some q"
  shows "\<exists>q'. p_event_signal_queue (tasks (snd (call n h a s)) t) = Some (q @ q')"
  using appendingD [OF call_appending, of t s n h a] assms by (simp add: appends_def)

section \<open>Claims\<close>

text \<open>
  C1. \<open>Task.create_failure(e)\<close> is documented to return a failed task. On the code it never
  returns: the new task has no subscriber of \<open>on_failure\<close>, so the event's body raises
  \<open>NoFailureHandlerException\<close>, and the new task is still running with no exception recorded.
\<close>

theorem create_failure_raises:
  "create_failure (Suc n) e s = (Raise NoFailureHandlerException, next_id s, snd (new_task s)) \<and>
   running (tasks (snd (new_task s)) (next_id s)) \<and>
   p_exception (tasks (snd (new_task s)) (next_id s)) = PNone"
  by (simp add: create_failure_def new_task_def init_task_def fire_defs running_def)

text \<open>
  C2, as stated, fails inside a transaction: the subscriber list is copied when the
  notification runs, at the flush, not when the event is fired. In \<open>resubscribing\<close> handler 1
  is the subscriber when the event is fired, and the flush invokes handler 2 alone.
\<close>

theorem flush_reads_subscribers_late:
  "subscribers (tasks resubscribing 0) (UserEvent 0) = [Fn 1 [Log 1]] \<and>
   call 4 (BoundTransaction 0 0) PNone resubscribing
     = (Ok, upd 0 (\<lambda>x. x\<lparr>subscribers := (subscribers x)(UserEvent 0 := [Fn 2 [Log 2]])\<rparr>)
          (resubscribing\<lparr>trace := [2]\<rparr>))"
  by (simp add: resubscribing_def two_tasks_def init_task_def fire_defs iadd_def isub_def
      upd_def eval_nat_numeral)

text \<open>
  C2, amended: a fire on a running task whose body returns becomes one notification pass
  for the event and its arguments: it runs at once when no transaction of the task is open,
  and otherwise it is appended to the task's queue and runs in the flush of the outermost
  transaction, in the state of that flush. The pass, in whichever state it runs, invokes
  the subscribers of that state in subscription order, up to and including the first one
  that raises, whatever the handlers subscribe and unsubscribe during the pass: for
  recorders, the labels logged are exactly those of \<open>invoked\<close>, a prefix of the subscriber
  list of the state in which the pass started, and the whole list when the pass returns.
\<close>

theorem pass_invokes_subscribers_at_its_start:
  assumes "p_running (tasks s t)" and "call_method n (call n) t ev a s = (Ok, s1)"
    and "list_all recorder (subscribers (tasks s2 t) ev)"
    and "do_call (call (Suc m)) (DoCall t ev a) s2 = (r, s3)"
  shows "(p_event_signal_queue (tasks s t) = None \<longrightarrow>
       call (Suc n) (BoundEvent t ev) a s = do_call (call n) (DoCall t ev a) s1) \<and>
    (p_event_signal_queue (tasks s t) \<noteq> None \<longrightarrow>
       (\<exists>q. p_event_signal_queue (tasks s1 t) = Some q \<and>
          call (Suc n) (BoundEvent t ev) a s
            = (Ok, upd t (\<lambda>x. x\<lparr>p_event_signal_queue := Some (q @ [DoCall t ev a])\<rparr>) s1))) \<and>
    (p_event_signal_queue (tasks s4 t) = Some (DoCall t ev a # rest) \<and>
     upd t (\<lambda>x. x\<lparr>p_event_signal_queue := None\<rparr>) s4 = s2 \<longrightarrow>
       transaction_exit (call (Suc m)) t True Ok s4
         = (if r = Ok then run_queue (call (Suc m)) rest s3 else (r, s3))) \<and>
    trace s3 = trace s2 @ map label (invoked (call (Suc m)) (subscribers (tasks s2 t) ev) a s2) \<and>
    invoked (call (Suc m)) (subscribers (tasks s2 t) ev) a s2
      = take (length (invoked (call (Suc m)) (subscribers (tasks s2 t) ev) a s2))
          (subscribers (tasks s2 t) ev) \<and>
    (r = Ok \<longrightarrow> invoked (call (Suc m)) (subscribers (tasks s2 t) ev) a s2 = subscribers (tasks s2 t) ev) \<and>
    (r \<noteq> Ok \<longrightarrow> r = Raise (EventHandlerException ValueError))"
proof -
  have e1: "evolves s s1"
    using call_method_evolves [OF call_evolving [of n] assms(1), where n = n and ev = ev and a = a]
      assms(2) by simp
  have A: "p_event_signal_queue (tasks s t) = None \<longrightarrow>
       call (Suc n) (BoundEvent t ev) a s = do_call (call n) (DoCall t ev a) s1"
  proof
    assume "p_event_signal_queue (tasks s t) = None"
    then have "p_event_signal_queue (tasks s1 t) = None"
      using evolvesD(5) [OF e1, of t] by simp
    from Event_call_outermost [OF assms(1) assms(2) this]
    show "call (Suc n) (BoundEvent t ev) a s = do_call (call n) (DoCall t ev a) s1" by simp
  qed
  have B: "p_event_signal_queue (tasks s t) \<noteq> None \<longrightarrow>
       (\<exists>q. p_event_signal_queue (tasks s1 t) = Some q \<and>
          call (Suc n) (BoundEvent t ev) a s
            = (Ok, upd t (\<lambda>x. x\<lparr>p_event_signal_queue := Some (q @ [DoCall t ev a])\<rparr>) s1))"
  proof
    assume "p_event_signal_queue (tasks s t) \<noteq> None"
    then obtain q where q: "p_event_signal_queue (tasks s1 t) = Some q"
      using evolvesD(5) [OF e1, of t] by auto
    from Event_call_nested [OF assms(1) assms(2) q] q
    show "\<exists>q. p_event_signal_queue (tasks s1 t) = Some q \<and>
          call (Suc n) (BoundEvent t ev) a s
            = (Ok, upd t (\<lambda>x. x\<lparr>p_event_signal_queue := Some (q @ [DoCall t ev a])\<rparr>) s1)"
      by simp
  qed
  have F: "p_event_signal_queue (tasks s4 t) = Some (DoCall t ev a # rest) \<and>
     upd t (\<lambda>x. x\<lparr>p_event_signal_queue := None\<rparr>) s4 = s2 \<longrightarrow>
       transaction_exit (call (Suc m)) t True Ok s4
         = (if r = Ok then run_queue (call (Suc m)) rest s3 else (r, s3))"
  proof
    assume "p_event_signal_queue (tasks s4 t) = Some (DoCall t ev a # rest) \<and>
      upd t (\<lambda>x. x\<lparr>p_event_signal_queue := None\<rparr>) s4 = s2"
    then show "transaction_exit (call (Suc m)) t True Ok s4
         = (if r = Ok then run_queue (call (Suc m)) rest s3 else (r, s3))"
      using assms(4) by (cases r) (simp_all add: transaction_exit_def Let_def del: do_call.simps call.simps)
  qed
  from assms(4) have "notify (call (Suc m)) (subscribers (tasks s2 t) ev) a s2 = (r, s3)"
    by simp
  note P = notify_invoked_recorders [OF assms(3) this]
  show ?thesis
    using A B F P invoked_prefix [of "call (Suc m)" "subscribers (tasks s2 t) ev" a s2]
    by blast
qed

theorem pass_invokes_subscribers_at_its_start_witness:
  "p_running (tasks resubscribing_entered 0) \<and>
   p_event_signal_queue (tasks resubscribing_entered 0) = Some [] \<and>
   subscribers (tasks resubscribing_entered 0) (UserEvent 0) = [Fn 1 [Log 1]] \<and>
   call (Suc (Suc 0)) (BoundEvent 0 (UserEvent 0)) PNone resubscribing_entered
     = (Ok, upd 0 (\<lambda>x. x\<lparr>p_event_signal_queue := Some [DoCall 0 (UserEvent 0) PNone]\<rparr>)
          resubscribing_entered) \<and>
   exec (Suc (Suc 0)) (call (Suc (Suc 0))) (transaction_method (tasks resubscribing 0) 0)
      resubscribing_entered = (Ok, resubscribing_at_flush) \<and>
   subscribers (tasks resubscribing_at_flush 0) (UserEvent 0) = [Fn 2 [Log 2]] \<and>
   list_all recorder (subscribers (tasks resubscribing_at_flush 0) (UserEvent 0)) \<and>
   transaction_exit (call (Suc 0)) 0 True Ok resubscribing_at_flush
     = (Ok, (upd 0 (\<lambda>x. x\<lparr>p_event_signal_queue := None\<rparr>) resubscribing_at_flush)\<lparr>trace := [2]\<rparr>) \<and>
   invoked (call (Suc 0)) [Fn 2 [Log 2]] PNone
      (upd 0 (\<lambda>x. x\<lparr>p_event_signal_queue := None\<rparr>) resubscribing_at_flush) = [Fn 2 [Log 2]] \<and>
   list_all recorder (subscribers (tasks self_modifying 0) (UserEvent 0)) \<and>
   map label (subscribers (tasks self_modifying 0) (UserEvent 0)) = [1, 2] \<and>
   fst (do_call (call (Suc 0)) (DoCall 0 (UserEvent 0) PNone) self_modifying) = Ok \<and>
   trace (snd (do_call (call (Suc 0)) (DoCall 0 (UserEvent 0) PNone) self_modifying)) = [1, 2] \<and>
   map label (subscribers
      (tasks (snd (do_call (call (Suc 0)) (DoCall 0 (UserEvent 0) PNone) self_modifying)) 0)
      (UserEvent 0)) = [1, 3] \<and>
   invoked (call (Suc 0)) (subscribers (tasks self_modifying 0) (UserEvent 0)) PNone self_modifying
     = subscribers (tasks self_modifying 0) (UserEvent 0)"
proof -
  let ?s5 = "upd 0 (\<lambda>x. x\<lparr>subscribers := (subscribers x)(UserEvent 0 :=
        [Fn 1 [Log 1, Unsubscribe 0 (UserEvent 0) (Fn 2 [Log 2]),
               Subscribe 0 (UserEvent 0) (Fn 3 [Log 3])],
         Fn 3 [Log 3]])\<rparr>) (self_modifying\<lparr>trace := [1, 2]\<rparr>)"
  have g3: "list_all recorder (subscribers (tasks self_modifying 0) (UserEvent 0))"
    and l: "map label (subscribers (tasks self_modifying 0) (UserEvent 0)) = [1, 2]"
    by (simp_all add: self_modifying_def two_tasks_def init_task_def)
  have g4: "do_call (call (Suc 0)) (DoCall 0 (UserEvent 0) PNone) self_modifying = (Ok, ?s5)"
    by (simp add: self_modifying_def two_tasks_def init_task_def iadd_def isub_def upd_def)
  let ?s2 = "upd 0 (\<lambda>x. x\<lparr>p_event_signal_queue := None\<rparr>) resubscribing_at_flush"
  have h1: "p_running (tasks resubscribing_entered 0)"
    and h2: "call_method (Suc 0) (call (Suc 0)) 0 (UserEvent 0) PNone resubscribing_entered
      = (Ok, resubscribing_entered)"
    and q: "p_event_signal_queue (tasks resubscribing_entered 0) = Some []"
    and s1: "subscribers (tasks resubscribing_entered 0) (UserEvent 0) = [Fn 1 [Log 1]]"
    by (simp_all add: resubscribing_entered_def resubscribing_def two_tasks_def init_task_def)
  have s2: "subscribers (tasks ?s2 0) (UserEvent 0) = [Fn 2 [Log 2]]"
    and s2': "subscribers (tasks resubscribing_at_flush 0) (UserEvent 0) = [Fn 2 [Log 2]]"
    and q4: "p_event_signal_queue (tasks resubscribing_at_flush 0) = Some [DoCall 0 (UserEvent 0) PNone]"
    and t2: "trace resubscribing_at_flush = []"
    by (simp_all add: resubscribing_at_flush_def resubscribing_def two_tasks_def)
  have h3: "list_all recorder (subscribers (tasks ?s2 0) (UserEvent 0))"
    by (simp add: s2')
  have h4: "do_call (call (Suc 0)) (DoCall 0 (UserEvent 0) PNone) ?s2 = (Ok, ?s2\<lparr>trace := [2]\<rparr>)"
    by (simp add: s2' t2)
  have body: "exec (Suc (Suc 0)) (call (Suc (Suc 0))) (transaction_method (tasks resubscribing 0) 0)
      resubscribing_entered = (Ok, resubscribing_at_flush)"
    by (simp add: resubscribing_entered_def resubscribing_at_flush_def resubscribing_def
        two_tasks_def init_task_def fire_defs iadd_def isub_def upd_def)
  note w = pass_invokes_subscribers_at_its_start [OF h1 h2 h3 h4,
      where ?s4.0 = resubscribing_at_flush and rest = "[]"]
  have b: "call (Suc (Suc 0)) (BoundEvent 0 (UserEvent 0)) PNone resubscribing_entered
     = (Ok, upd 0 (\<lambda>x. x\<lparr>p_event_signal_queue := Some [DoCall 0 (UserEvent 0) PNone]\<rparr>)
          resubscribing_entered)"
    using w q by simp
  have f: "transaction_exit (call (Suc 0)) 0 True Ok resubscribing_at_flush = (Ok, ?s2\<lparr>trace := [2]\<rparr>)"
    using w q4 by simp
  have i: "invoked (call (Suc 0)) [Fn 2 [Log 2]] PNone ?s2 = [Fn 2 [Log 2]]"
    using w s2' by simp
  have j: "invoked (call (Suc 0)) (subscribers (tasks self_modifying 0) (UserEvent 0)) PNone
      self_modifying = subscribers (tasks self_modifying 0) (UserEvent 0)"
    using pass_invokes_subscribers_at_its_start [OF h1 h2 g3 g4] by blast
  show ?thesis using h1 q s1 b body s2' f i g3 l g4 j by simp
qed

text \<open>
  C3, as stated, fails: an event fired on a task that is not running does not run its
  declared body. The body of the event of \<open>stopped_task\<close> would log 1; the fire logs nothing.
\<close>

theorem body_skipped_on_stopped_task:
  "\<not> running (tasks stopped_task 0) \<and>
   trace (snd (call_method 1 (call 1) 0 (UserEvent 0) PNone stopped_task)) = [1] \<and>
   trace (snd (call 2 (BoundEvent 0 (UserEvent 0)) PNone stopped_task)) = []"
  by (simp add: stopped_task_def two_tasks_def init_task_def running_def fire_defs numeral_2_eq_2)

text \<open>
  C3, amended: an event fired on a task whose running flag is false runs neither its
  declared body nor its subscribers; the call returns and the state is unchanged.
\<close>

theorem fire_on_stopped_task:
  assumes "\<not> running (tasks s t)"
  shows "call (Suc n) (BoundEvent t ev) a s = (Ok, s)"
  using assms by (simp add: fire_defs running_def)

theorem fire_on_stopped_task_witness:
  "\<not> running (tasks stopped_task 0) \<and>
   call (Suc 1) (BoundEvent 0 (UserEvent 0)) PNone stopped_task = (Ok, stopped_task)"
proof -
  have r: "\<not> running (tasks stopped_task 0)"
    by (simp add: stopped_task_def running_def)
  from r fire_on_stopped_task [OF r, of 1 "UserEvent 0" PNone] show ?thesis by simp
qed

text \<open>
  C4, as stated, fails in two ways. In \<open>nested_events\<close> the transaction method fires event 0,
  whose body fires event 1: event 0 is raised first, but event 1 is queued when its own body
  returns, before the enclosing event 0, and so the subscriber of event 1 (21) is notified
  before the subscriber of event 0 (20). In \<open>succeeding\<close> the method fires \<open>on_success\<close>,
  whose body stops the task, and then event 0: the body of event 0 (10) never runs and its
  subscriber (20) is never notified, although the event was fired during the method.
\<close>

theorem notifications_not_in_raise_order:
  "fst (call (Suc (Suc (Suc (Suc 0)))) (BoundTransaction 0 0) PNone nested_events) = Ok \<and>
   trace (snd (call (Suc (Suc (Suc (Suc 0)))) (BoundTransaction 0 0) PNone nested_events))
     = [10, 11, 12, 21, 20] \<and>
   fst (call (Suc (Suc (Suc (Suc 0)))) (BoundTransaction 0 0) PNone succeeding) = Ok \<and>
   trace (snd (call (Suc (Suc (Suc (Suc 0)))) (BoundTransaction 0 0) PNone succeeding))
     = [1, 2, 30]"
  by (simp add: nested_events_def succeeding_def two_tasks_def init_task_def fire_defs upd_def)

text \<open>
  C4, amended: when a transaction method \<open>m\<close> of task \<open>t\<close> is invoked outside any active
  transaction of \<open>t\<close> and its body calls, to any depth, events of \<open>t\<close> (\<open>on_success\<close> and
  \<open>on_failure\<close> among them), transaction methods of \<open>t\<close>, plain functions and the other
  operations of the library, then the invocation does what \<open>deferred\<close> does, which invokes no
  subscriber, followed by the flush. That is: the body of every event fired while \<open>t\<close> is
  running runs at its call site; an event fired after \<open>t\<close> has stopped runs neither its body
  nor any subscriber; every notification is queued when the body of its event has returned,
  so the queue \<open>q\<close> when the body of \<open>m\<close> ends lists the fired events in the order in which
  their bodies returned (an event fired from inside the body of another event comes before
  the enclosing one); and if the body of \<open>m\<close> returned, the notifications are delivered after
  it, with no transaction open, in the order of \<open>q\<close>, while if it raised, none is delivered.
  Moreover, whatever is called while a transaction of \<open>t\<close> is open, on any task and to any
  depth, the transaction is still open afterwards and its queue has only grown at its end:
  nothing queued is delivered, dropped or reordered before the outermost invocation ends.
\<close>

theorem transaction_defers_notifications:
  assumes "p_event_signal_queue (tasks s t) = None"
    and "deferred n t (transaction_method (tasks s t) m)
           (upd t (\<lambda>x. x\<lparr>p_event_signal_queue := Some []\<rparr>) s) = Some (r, q, s2)"
  shows "exec n (call n) (transaction_method (tasks s t) m)
           (upd t (\<lambda>x. x\<lparr>p_event_signal_queue := Some []\<rparr>) s) = (r, s2) \<and>
         p_event_signal_queue (tasks s2 t) = Some q \<and>
         call (Suc n) (BoundTransaction t m) a s
           = (if r = Ok
              then run_queue (call n) q (upd t (\<lambda>x. x\<lparr>p_event_signal_queue := None\<rparr>) s2)
              else (r, upd t (\<lambda>x. x\<lparr>p_event_signal_queue := None\<rparr>) s2)) \<and>
         (\<forall>k h x s' q0. p_event_signal_queue (tasks s' t) = Some q0 \<longrightarrow>
            (\<exists>q'. p_event_signal_queue (tasks (snd (call k h x s')) t) = Some (q0 @ q')))"
proof -
  let ?s0 = "upd t (\<lambda>x. x\<lparr>p_event_signal_queue := Some []\<rparr>) s"
  have q0: "p_event_signal_queue (tasks ?s0 t) = Some []" by simp
  from exec_deferred(1) [OF assms(2) q0]
  have b: "exec n (call n) (transaction_method (tasks s t) m) ?s0 = (r, s2)"
    and q: "p_event_signal_queue (tasks s2 t) = Some q"
    by simp_all
  have "call (Suc n) (BoundTransaction t m) a s
      = (if r = Ok
         then run_queue (call n) q (upd t (\<lambda>x. x\<lparr>p_event_signal_queue := None\<rparr>) s2)
         else (r, upd t (\<lambda>x. x\<lparr>p_event_signal_queue := None\<rparr>) s2))"
    using assms(1) b q
    by (simp add: Transaction_call_def transaction_enter_def transaction_exit_def
        del: run_queue.simps)
  with b q call_appends show ?thesis by blast
qed

theorem transaction_defers_notifications_witness:
  "p_event_signal_queue (tasks nested_methods 0) = None \<and>
   (\<exists>s2. deferred (Suc (Suc 0)) 0 (transaction_method (tasks nested_methods 0) 0)
           (upd 0 (\<lambda>x. x\<lparr>p_event_signal_queue := Some []\<rparr>) nested_methods)
         = Some (Ok, [DoCall 0 (UserEvent 0) PNone, DoCall 0 (UserEvent 2) PNone,
                      DoCall 0 (UserEvent 1) PNone], s2) \<and>
         trace s2 = [1, 10, 2, 12, 11]) \<and>
   call (Suc (Suc (Suc 0))) (BoundTransaction 0 0) PNone nested_methods
     = (Ok, nested_methods\<lparr>trace := [1, 10, 2, 12, 11, 20, 22, 21]\<rparr>) \<and>
   p_event_signal_queue (tasks (snd (call (Suc (Suc 0)) (BoundEvent 0 (UserEvent 0)) PNone
       (upd 0 (\<lambda>x. x\<lparr>p_event_signal_queue := Some []\<rparr>) nested_methods))) 0)
     = Some [DoCall 0 (UserEvent 0) PNone]"
proof -
  let ?q = "[DoCall 0 (UserEvent 0) PNone, DoCall 0 (UserEvent 2) PNone, DoCall 0 (UserEvent 1) PNone]"
  let ?s2 = "upd 0 (\<lambda>x. x\<lparr>p_event_signal_queue := Some ?q\<rparr>) (nested_methods\<lparr>trace := [1, 10, 2, 12, 11]\<rparr>)"
  have h1: "p_event_signal_queue (tasks nested_methods 0) = None"
    by (simp add: nested_methods_def two_tasks_def init_task_def)
  have h2: "deferred (Suc (Suc 0)) 0 (transaction_method (tasks nested_methods 0) 0)
           (upd 0 (\<lambda>x. x\<lparr>p_event_signal_queue := Some []\<rparr>) nested_methods)
         = Some (Ok, ?q, ?s2)"
    by (simp add: nested_methods_def two_tasks_def init_task_def queue_append_def upd_def)
  have t2: "trace ?s2 = [1, 10, 2, 12, 11]" by simp
  have full: "call (Suc (Suc (Suc 0))) (BoundTransaction 0 0) PNone nested_methods
     = (Ok, nested_methods\<lparr>trace := [1, 10, 2, 12, 11, 20, 22, 21]\<rparr>)"
    by (simp add: nested_methods_def two_tasks_def init_task_def fire_defs upd_def)
  have fire: "p_event_signal_queue (tasks (snd (call (Suc (Suc 0)) (BoundEvent 0 (UserEvent 0)) PNone
       (upd 0 (\<lambda>x. x\<lparr>p_event_signal_queue := Some []\<rparr>) nested_methods))) 0)
     = Some [DoCall 0 (UserEvent 0) PNone]"
    by (simp add: nested_methods_def two_tasks_def init_task_def fire_defs upd_def)
  from transaction_defers_notifications [OF h1 h2, of PNone]
  show ?thesis using h1 h2 t2 full fire by blast
qed

text \<open>
  C5, as stated, fails: the default failure handler of an adoption is the parent's own
  \<open>on_failure\<close>, whose body raises \<open>NoFailureHandlerException\<close> when the parent has no
  subscriber of its own. Parent 0 adopts child 1; after \<open>on_failure\<close> of the child the child
  is stopped, the call raises, and the parent is still running with no exception.
\<close>

theorem parent_without_handler_stays_running:
  "running (tasks two_tasks 0) \<and> running (tasks two_tasks 1) \<and>
   fst (call 5 (BoundEvent 1 OnFailure) (PExc (PyException ''boom'')) (adopt_task 0 1 None two_tasks))
     = Raise NoFailureHandlerException \<and>
   running (tasks (snd (call 5 (BoundEvent 1 OnFailure) (PExc (PyException ''boom''))
      (adopt_task 0 1 None two_tasks))) 0) \<and>
   exception (tasks (snd (call 5 (BoundEvent 1 OnFailure) (PExc (PyException ''boom''))
      (adopt_task 0 1 None two_tasks))) 0) = Inl AssertionError \<and>
   \<not> running (tasks (snd (call 5 (BoundEvent 1 OnFailure) (PExc (PyException ''boom''))
      (adopt_task 0 1 None two_tasks))) 1)"
  by (simp add: two_tasks_def adopt_task_def iadd_def init_task_def running_def exception_def
      fire_defs eval_nat_numeral)

text \<open>
  C5, amended: a running child \<open>c\<close> with no transaction open is adopted by \<open>p\<close> with the default
  failure handler, and \<open>on_failure(e)\<close> is fired on the child, the call depth allowing for
  the tasks that are running. The body of the event returns (the child is stopped, in the
  state \<open>s2\<close>). When the subscribers that the child had before the adoption all return,
  leaving the state \<open>s3\<close> in which the parent is running, the child is not running, and:
  if the parent has a subscriber of its own \<open>on_failure\<close>, then however the call ends (a
  subscriber of the parent may raise) the parent has recorded \<open>e\<close>, which its \<open>exception\<close>
  returns when \<open>e\<close> is not \<open>None\<close>, and neither parent nor child is running; if the parent has
  no such subscriber, the call raises \<open>NoFailureHandlerException\<close>, not wrapped, in the state
  \<open>s3\<close>: the parent is still running and has recorded nothing.
\<close>

theorem adoption_cascade:
  assumes "running (tasks s c)" and "p_event_signal_queue (tasks s c) = None"
    and "finite (running_tasks s)" and "card (running_tasks s) \<le> n"
    and "on_failure (Suc (Suc n)) c e (adopt_task p c None s) = (r2, s2)"
    and "notify (call (Suc (Suc n))) (subscribers (tasks s c) OnFailure) e s2 = (Ok, s3)"
    and "running (tasks s3 p)"
  shows "r2 = Ok \<and> \<not> running (tasks s3 c) \<and>
    (subscribers (tasks s3 p) OnFailure \<noteq> [] \<longrightarrow>
       (case call (Suc (Suc (Suc n))) (BoundEvent c OnFailure) e (adopt_task p c None s) of
          (r, s') \<Rightarrow> p_exception (tasks s' p) = e \<and>
            (e \<noteq> PNone \<longrightarrow> exception (tasks s' p) = Inr e) \<and>
            \<not> running (tasks s' p) \<and> \<not> running (tasks s' c))) \<and>
    (subscribers (tasks s3 p) OnFailure = [] \<longrightarrow>
       call (Suc (Suc (Suc n))) (BoundEvent c OnFailure) e (adopt_task p c None s)
         = (Raise NoFailureHandlerException, s3))"
proof -
  let ?s1 = "adopt_task p c None s"
  let ?s1' = "upd c (\<lambda>x. x\<lparr>p_exception := e\<rparr>) ?s1"
  let ?N = "Suc (Suc n)"
  have rc: "p_running (tasks ?s1 c)" and rc': "p_running (tasks ?s1' c)"
    using assms(1) by (auto simp add: adopt_task_def iadd_def running_def Let_def)
  have st: "stop ?N c ?s1' = (r2, s2)"
    using assms(5) by (simp add: on_failure_def subscribers_adopt_task)
  have "fst (stop ?N c ?s1') = Ok"
    by (rule stop_returns)
      (use assms(3,4) rc' in \<open>simp_all add: running_tasks_upd_exception running_tasks_adopt_task\<close>)
  then have r2: "r2 = Ok" using st by simp
  have os: "only_stops ?s1' s2" using stop_only_stops(1) [of ?s1' ?N c] st by simp
  have body: "call_method ?N (call ?N) c OnFailure e ?s1 = (Ok, s2)"
    using assms(5) r2 by simp
  have q2: "p_event_signal_queue (tasks s2 c) = None"
    using only_stops_queue [OF os, of c] assms(2) by (auto simp add: adopt_task_def iadd_def Let_def)
  have subs2: "subscribers (tasks s2 c) OnFailure
      = subscribers (tasks s c) OnFailure @ [BoundEvent p OnFailure]"
    using only_stops_subscribers [OF os, of c] by (simp add: subscribers_adopt_task)
  have nc2: "\<not> p_running (tasks s2 c)"
    using stop_not_running [OF rc', of "Suc n"] st by simp
  have e3: "evolves s2 s3"
    using notify_evolves [OF call_evolving [of ?N], where s = s2 and a = e
        and hs = "subscribers (tasks s c) OnFailure"] assms(6) by simp
  have nc3: "\<not> p_running (tasks s3 c)" using evolvesD(1) [OF e3 nc2] .
  have rp: "p_running (tasks s3 p)" using assms(7) by (simp add: running_def)
  have fire: "call (Suc ?N) (BoundEvent c OnFailure) e ?s1
      = notify (call ?N) [BoundEvent p OnFailure] e s3"
    using Event_call_outermost [OF rc body q2] subs2 notify_append [OF assms(6)] by simp
  have with_handler: "subscribers (tasks s3 p) OnFailure \<noteq> [] \<longrightarrow>
       (case call (Suc ?N) (BoundEvent c OnFailure) e ?s1 of
          (r, s') \<Rightarrow> p_exception (tasks s' p) = e \<and>
            (e \<noteq> PNone \<longrightarrow> exception (tasks s' p) = Inr e) \<and>
            \<not> running (tasks s' p) \<and> \<not> running (tasks s' c))"
  proof
    assume sp: "subscribers (tasks s3 p) OnFailure \<noteq> []"
    obtain r s' where res: "call (Suc ?N) (BoundEvent c OnFailure) e ?s1 = (r, s')"
      by (cases "call (Suc ?N) (BoundEvent c OnFailure) e ?s1")
    have "s' = snd (notify (call ?N) [BoundEvent p OnFailure] e s3)"
      using res fire by (simp del: call.simps notify.simps)
    also have "\<dots> = snd (call ?N (BoundEvent p OnFailure) e s3)"
      by (rule notify_single)
    also have "\<dots> = snd (Event_call (Suc n) (call (Suc n)) p OnFailure e s3)"
      by simp
    finally have s': "s' = snd (Event_call (Suc n) (call (Suc n)) p OnFailure e s3)" .
    note fin = Event_call_on_failure_stops [OF call_evolving rp sp s']
    have "p_exception (tasks s' p) = e \<and> \<not> running (tasks s' p) \<and> \<not> running (tasks s' c)"
      using fin(1) fin(2) fin(3) [OF nc3] by (simp add: running_def)
    then show "case call (Suc ?N) (BoundEvent c OnFailure) e ?s1 of
          (r, s') \<Rightarrow> p_exception (tasks s' p) = e \<and>
            (e \<noteq> PNone \<longrightarrow> exception (tasks s' p) = Inr e) \<and>
            \<not> running (tasks s' p) \<and> \<not> running (tasks s' c)"
      using res by (simp add: exception_def)
  qed
  have without_handler: "subscribers (tasks s3 p) OnFailure = [] \<longrightarrow>
       call (Suc ?N) (BoundEvent c OnFailure) e ?s1 = (Raise NoFailureHandlerException, s3)"
  proof
    assume "subscribers (tasks s3 p) OnFailure = []"
    then have "call ?N (BoundEvent p OnFailure) e s3 = (Raise NoFailureHandlerException, s3)"
      using rp by (simp add: Event_call_def on_failure_def)
    then have "notify (call ?N) [BoundEvent p OnFailure] e s3 = (Raise NoFailureHandlerException, s3)"
      by (simp del: call.simps)
    then show "call (Suc ?N) (BoundEvent c OnFailure) e ?s1 = (Raise NoFailureHandlerException, s3)"
      using fire by simp
  qed
  show ?thesis
    using r2 nc3 with_handler without_handler by (simp add: running_def)
qed

theorem adoption_cascade_witness:
  "running (tasks family 1) \<and> p_event_signal_queue (tasks family 1) = None \<and>
   finite (running_tasks family) \<and> card (running_tasks family) \<le> 3 \<and>
   subscribers (tasks family 1) OnFailure = [Fn 8 [Log 8]] \<and>
   fst (on_failure (Suc (Suc 3)) 1 (PExc (PyException ''boom'')) (adopt_task 0 1 None family)) = Ok \<and>
   exception (tasks (snd (call (Suc (Suc (Suc 3))) (BoundEvent 1 OnFailure) (PExc (PyException ''boom''))
      (adopt_task 0 1 None family))) 0) = Inr (PExc (PyException ''boom'')) \<and>
   \<not> running (tasks (snd (call (Suc (Suc (Suc 3))) (BoundEvent 1 OnFailure) (PExc (PyException ''boom''))
      (adopt_task 0 1 None family))) 0) \<and>
   \<not> running (tasks (snd (call (Suc (Suc (Suc 3))) (BoundEvent 1 OnFailure) (PExc (PyException ''boom''))
      (adopt_task 0 1 None family))) 1)"
proof -
  let ?e = "PExc (PyException ''boom'')"
  let ?s1 = "adopt_task 0 1 None family"
  let ?s1' = "upd 1 (\<lambda>x. x\<lparr>p_exception := ?e\<rparr>) ?s1"
  have h1: "running (tasks family 1)" and h2: "p_event_signal_queue (tasks family 1) = None"
    and subs: "subscribers (tasks family 1) OnFailure = [Fn 8 [Log 8]]"
    by (simp_all add: family_def adopt_task_def iadd_def init_task_def running_def)
  have h3: "finite (running_tasks family)" and h4: "card (running_tasks family) \<le> 3"
    by (simp_all add: running_tasks_family)
  obtain r2 s2 where h5: "on_failure (Suc (Suc 3)) 1 ?e ?s1 = (r2, s2)"
    by (cases "on_failure (Suc (Suc 3)) 1 ?e ?s1")
  then have st: "stop (Suc (Suc 3)) 1 ?s1' = (r2, s2)"
    by (simp add: on_failure_def subscribers_adopt_task subs)
  have "adopts ?s1' = insert (0, 1) (adopts family)"
    by (auto simp add: adopts_def adopt_task_def iadd_def Let_def split: if_splits)
  then have "(1, 0) \<notin> (adopts ?s1')\<^sup>*"
    by (simp add: adopts_family rtrancl_insert)
  from stop_frame(1) [OF this, of "Suc (Suc 3)"] st have p2: "tasks s2 0 = tasks ?s1' 0"
    by simp
  let ?s3 = "s2\<lparr>trace := trace s2 @ [8]\<rparr>"
  have h6: "notify (call (Suc (Suc 3))) (subscribers (tasks family 1) OnFailure) ?e s2 = (Ok, ?s3)"
    using subs by (simp add: eval_nat_numeral)
  have h7: "running (tasks ?s3 0)"
    using p2 by (simp add: family_def adopt_task_def iadd_def init_task_def running_def)
  have sp: "subscribers (tasks ?s3 0) OnFailure \<noteq> []"
    using p2 by (simp add: family_def adopt_task_def iadd_def init_task_def)
  note w = adoption_cascade [OF h1 h2 h3 h4 h5 h6 h7]
  have "r2 = Ok" by (rule conjunct1 [OF w])
  then have ok: "fst (on_failure (Suc (Suc 3)) 1 ?e ?s1) = Ok" using h5 by simp
  have "case call (Suc (Suc (Suc 3))) (BoundEvent 1 OnFailure) ?e ?s1 of
          (r, s') \<Rightarrow> p_exception (tasks s' 0) = ?e \<and>
            (?e \<noteq> PNone \<longrightarrow> exception (tasks s' 0) = Inr ?e) \<and>
            \<not> running (tasks s' 0) \<and> \<not> running (tasks s' 1)"
    by (rule mp [OF conjunct1 [OF conjunct2 [OF conjunct2 [OF w]]] sp])
  then show ?thesis using h1 h2 h3 h4 subs ok by (simp add: case_prod_beta)
qed

text \<open>
  C6. Firing \<open>on_failure(e)\<close> on a running task with no subscriber of \<open>on_failure\<close> raises
  \<open>NoFailureHandlerException\<close> and leaves the whole state as it was: the task is still
  running and no exception is recorded.
\<close>

theorem on_failure_no_handler:
  assumes "running (tasks s t)" and "subscribers (tasks s t) OnFailure = []"
  shows "call (Suc n) (BoundEvent t OnFailure) e s = (Raise NoFailureHandlerException, s)"
  using assms by (simp add: fire_defs running_def)

theorem on_failure_no_handler_witness:
  "running (tasks two_tasks 0) \<and> subscribers (tasks two_tasks 0) OnFailure = [] \<and>
   call (Suc 0) (BoundEvent 0 OnFailure) (PExc (PyException ''boom'')) two_tasks
     = (Raise NoFailureHandlerException, two_tasks)"
proof -
  have r: "running (tasks two_tasks 0)"
    by (simp add: two_tasks_def init_task_def running_def)
  have e: "subscribers (tasks two_tasks 0) OnFailure = []"
    by (simp add: two_tasks_def init_task_def)
  from r e on_failure_no_handler [OF r e, of 0 "PExc (PyException ''boom'')"] show ?thesis by simp
qed




text \<open>
  C8. The running flag goes from true to false once. \<open>stop()\<close> on a running task leaves it
  not running, and returns when the call depth allows for the tasks that are running;
  \<open>stop()\<close> on a task that is not running raises and changes nothing; and no callable (an
  event, a transaction method, client code performing any commands), no \<open>stop_task\<close>,
  adoption, subscription or construction makes a task that is not running run again.
\<close>

theorem running_ends_once:
  "(running (tasks s t) \<longrightarrow> \<not> running (tasks (snd (stop (Suc n) t s)) t)) \<and>
   (running (tasks s t) \<and> finite (running_tasks s) \<and> card (running_tasks s) \<le> n \<longrightarrow>
      fst (stop n t s) = Ok) \<and>
   (\<not> running (tasks s t) \<longrightarrow>
      stop (Suc n) t s = (Raise (PyException ''stop() called on non-running task.''), s)) \<and>
   (\<not> running (tasks s t) \<longrightarrow>
      \<not> running (tasks (snd (call n h a s)) t) \<and>
      \<not> running (tasks (snd (exec n (call n) cs s)) t) \<and>
      \<not> running (tasks (snd (stop_task n ot s)) t) \<and>
      \<not> running (tasks (adopt_task p c fh s) t) \<and>
      \<not> running (tasks (iadd u ev h s) t) \<and>
      \<not> running (tasks (snd (isub u ev h s)) t) \<and>
      (t \<noteq> next_id s \<longrightarrow>
         \<not> running (tasks (snd (snd (create_failure n a s))) t) \<and>
         \<not> running (tasks (snd (snd (create_success n a s))) t)))"
proof (intro conjI impI)
  assume "running (tasks s t)"
  then show "\<not> running (tasks (snd (stop (Suc n) t s)) t)"
    unfolding running_def by (rule stop_not_running)
next
  assume "running (tasks s t) \<and> finite (running_tasks s) \<and> card (running_tasks s) \<le> n"
  then show "fst (stop n t s) = Ok"
    by (simp add: stop_returns running_def)
next
  assume "\<not> running (tasks s t)"
  then show "stop (Suc n) t s = (Raise (PyException ''stop() called on non-running task.''), s)"
    by (simp add: running_def)
next
  assume r: "\<not> running (tasks s t)"
  show "\<not> running (tasks (snd (call n h a s)) t)"
    using r evolvesD(1) [OF call_evolves] by (simp add: running_def)
  show "\<not> running (tasks (snd (exec n (call n) cs s)) t)"
    using r evolvesD(1) [OF exec_evolves [OF call_evolving]] by (simp add: running_def)
  show "\<not> running (tasks (snd (stop_task n ot s)) t)"
    using r evolvesD(1) [OF stop_task_evolves] by (simp add: running_def)
  show "\<not> running (tasks (adopt_task p c fh s) t)"
    using r evolvesD(1) [OF adopt_task_evolves] by (simp add: running_def)
  show "\<not> running (tasks (iadd u ev h s) t)"
    using r evolvesD(1) [OF iadd_evolves] by (simp add: running_def)
  show "\<not> running (tasks (snd (isub u ev h s)) t)"
    using r evolvesD(1) [OF isub_evolves] by (simp add: running_def)
next
  assume r: "\<not> running (tasks s t)" and t: "t \<noteq> next_id s"
  show "\<not> running (tasks (snd (snd (create_failure n a s))) t)"
    using r t by (simp add: running_def create_failure_evolves)
  show "\<not> running (tasks (snd (snd (create_success n a s))) t)"
    using r t by (simp add: running_def create_success_evolves)
qed

theorem running_ends_once_witness:
  "running (tasks two_tasks 0) \<and> finite (running_tasks two_tasks) \<and> card (running_tasks two_tasks) \<le> 2 \<and>
   \<not> running (tasks (snd (stop (Suc 2) 0 two_tasks)) 0) \<and>
   fst (stop 2 0 two_tasks) = Ok \<and>
   \<not> running (tasks two_tasks 5) \<and>
   stop (Suc 2) 5 two_tasks = (Raise (PyException ''stop() called on non-running task.''), two_tasks) \<and>
   \<not> running (tasks (snd (call 2 (BoundEvent 5 OnSuccess) (PInt 1) two_tasks)) 5) \<and>
   \<not> running (tasks (snd (snd (create_success 2 (PInt 1) two_tasks))) 5)"
proof -
  have r0: "running (tasks two_tasks 0)"
    by (simp add: two_tasks_def init_task_def running_def)
  have r5: "\<not> running (tasks two_tasks 5)"
    by (simp add: two_tasks_def idle_def running_def)
  have f: "finite (running_tasks two_tasks)" and c: "card (running_tasks two_tasks) \<le> 2"
    by (simp_all add: running_tasks_two_tasks)
  have n: "(5::nat) \<noteq> next_id two_tasks" by (simp add: two_tasks_def)
  note a = running_ends_once [where s = two_tasks and t = 0 and n = 2]
  note b = running_ends_once [where s = two_tasks and t = 5 and n = 2 and h = "BoundEvent 5 OnSuccess"
      and a = "PInt 1"]
  show ?thesis using r0 r5 f c n a b by simp
qed




text \<open>
  C10. For every value \<open>v\<close>, \<open>Future.create_success(v)\<close> returns a new future whose \<open>result\<close>
  is \<open>v\<close>, whose \<open>succeeded\<close> is true and which is not running, although the new future has
  no subscribers. Two calls deep suffice.
\<close>

theorem create_success_result:
  "case create_success (Suc (Suc n)) v s of
     (r, f, s') \<Rightarrow> r = Ok \<and> f = next_id s \<and> result (tasks s' f) = Inr v \<and>
       succeeded (tasks s' f) = Inr True \<and> running (tasks s' f) = False"
  by (simp add: create_success_def new_task_def init_task_def fire_defs
      result_def succeeded_def running_def)

end
